theory Spec2Isabelle
  imports Complex_Main "HOL-Library.Multiset"
begin

section \<open>Tiles and the shuffle engine (app.js, lines 86--132 and 184--217)\<close>

text \<open>
  An \<open>Image\<close> element is known to the game logic only through its \<open>src\<close>, \<open>width\<close> and
  \<open>height\<close>. A tile's canvas is the region of the image that \<open>createTiles\<close> draws into it,
  identified by the image, the grid size and the row and column of the region.
\<close>

record image_element =
  img_src :: string
  img_width :: nat
  img_height :: nat

record canvas_element =
  cv_image :: image_element
  cv_gridSize :: nat
  cv_row :: nat
  cv_col :: nat

record tile =
  originalIndex :: nat
  canvas :: canvas_element

text \<open>\<open>calculateGridSize(levelIndex)\<close>: \<open>Math.min(baseSize + levelIndex, maxSize)\<close>.\<close>

definition calculateGridSize :: "nat \<Rightarrow> nat" where
  "calculateGridSize levelIndex =
     (let baseSize = 3; maxSize = 6 in min (baseSize + levelIndex) maxSize)"

text \<open>
  \<open>createTiles(image, gridSize)\<close>: the outer loop runs over the rows, the inner loop over the
  columns, and every iteration pushes one tile with \<open>originalIndex = row * gridSize + col\<close>.
\<close>

definition createTiles :: "image_element \<Rightarrow> nat \<Rightarrow> tile list" where
  "createTiles img gridSize =
     concat (map (\<lambda>row. map (\<lambda>col.
        \<lparr>originalIndex = row * gridSize + col,
         canvas = \<lparr>cv_image = img, cv_gridSize = gridSize, cv_row = row, cv_col = col\<rparr>\<rparr>)
        [0..<gridSize]) [0..<gridSize])"

text \<open>
  The Fisher-Yates loop of \<open>shuffleTiles\<close>:
  \<^verbatim>\<open>for (let i = n - 1; i > 0; i--) {
      const j = Math.floor(Math.random() * (i + 1));
      [shuffled[i], shuffled[j]] = [shuffled[j], shuffled[i]];
  }\<close>
  \<open>Math.random()\<close> is an input of the model: \<open>rnd i\<close> is the number it returns in the
  iteration with loop variable \<open>i\<close> (every \<open>i\<close> occurs in one iteration only). JavaScript
  guarantees \<open>0 \<le> Math.random() < 1\<close>; the theorems that need this say so. The destructuring
  assignment reads both elements before it writes either.
\<close>

definition randomIndex :: "(nat \<Rightarrow> rat) \<Rightarrow> nat \<Rightarrow> nat" where
  "randomIndex rnd i = nat \<lfloor>rnd i * (of_nat i + 1)\<rfloor>"

fun fisherYatesLoop :: "(nat \<Rightarrow> rat) \<Rightarrow> nat \<Rightarrow> 'a list \<Rightarrow> 'a list" where
  "fisherYatesLoop rnd 0 shuffled = shuffled"
| "fisherYatesLoop rnd (Suc k) shuffled =
     (let i = Suc k; j = randomIndex rnd i
      in fisherYatesLoop rnd k (shuffled[i := shuffled ! j, j := shuffled ! i]))"

text \<open>
  The loop starts at \<open>n - 1\<close>. For \<open>n = 0\<close> JavaScript starts at \<open>-1\<close> and the natural
  number subtraction at \<open>0\<close>; the loop body runs in neither case.
\<close>

definition fisherYates :: "(nat \<Rightarrow> rat) \<Rightarrow> 'a list \<Rightarrow> 'a list" where
  "fisherYates rnd tiles = fisherYatesLoop rnd (length tiles - 1) tiles"

text \<open>
  The inversion count of \<open>shuffleTiles\<close>: one increment for every pair \<open>i < j < n\<close> with
  \<open>shuffled[i].originalIndex > shuffled[j].originalIndex\<close>.
\<close>

definition countInversions :: "tile list \<Rightarrow> nat" where
  "countInversions shuffled =
     (let n = length shuffled in
      sum_list (map (\<lambda>i. sum_list (map (\<lambda>j.
        if originalIndex (shuffled ! i) > originalIndex (shuffled ! j) then 1 else 0)
        [i + 1..<n])) [0..<n]))"

text \<open>
  The parity correction of \<open>shuffleTiles\<close> (lines 106--122): if the inversion count is odd,
  positions 0 and 1 are exchanged. An odd count needs two tiles, so the exchange is always
  within the array (lemma \<open>countInversions_short\<close> below).
\<close>

definition parityFix :: "tile list \<Rightarrow> tile list" where
  "parityFix shuffled =
     (let inversions = countInversions shuffled in
      if inversions mod 2 \<noteq> 0 then shuffled[0 := shuffled ! 1, 1 := shuffled ! 0]
      else shuffled)"

definition shuffleTiles :: "(nat \<Rightarrow> rat) \<Rightarrow> tile list \<Rightarrow> tile list" where
  "shuffleTiles rnd tiles = parityFix (fisherYates rnd tiles)"

text \<open>
  \<open>Array.prototype.every\<close> with a callback of the element and its index: it stops with
  \<open>false\<close> at the first element the callback rejects, and is \<open>true\<close> on the empty array.
\<close>

fun every :: "('a \<Rightarrow> nat \<Rightarrow> bool) \<Rightarrow> nat \<Rightarrow> 'a list \<Rightarrow> bool" where
  "every callback index [] = True"
| "every callback index (x # xs) =
     (if callback x index then every callback (Suc index) xs else False)"

text \<open>The body of \<open>checkSolved\<close>, as a function of the tile array it reads.\<close>

definition boardSolved :: "tile list \<Rightarrow> bool" where
  "boardSolved tiles = every (\<lambda>tile index. originalIndex tile = index) 0 tiles"

text \<open>The exchange of \<open>swapTiles\<close> on the tile array, for two positions of the array.\<close>

definition exchange :: "nat \<Rightarrow> nat \<Rightarrow> 'a list \<Rightarrow> 'a list" where
  "exchange indexA indexB tiles = tiles[indexA := tiles ! indexB, indexB := tiles ! indexA]"


section \<open>The session state (app.js, lines 14--24)\<close>

record level_data =
  ld_level :: string
  ld_image :: string
  ld_audio :: string

text \<open>
  An \<open>audio\<close> element as the game logic sets it up: its \<open>src\<close> and its \<open>preload\<close>
  attribute. The playback position and the paused flag belong to the browser and are not
  part of the model.
\<close>

record audio_element =
  au_src :: string
  au_preload :: string

datatype screen =
  LoadingScreen | ErrorScreen | WelcomeScreen | GameScreen | CompletionScreen | FinalScreen

text \<open>
  An \<open>async\<close> function that has reached an \<open>await\<close> is a suspended task of the event
  loop: \<open>init\<close> waits for \<open>fetchLevels\<close>, \<open>loadLevel(levelIndex)\<close> waits first for
  \<open>fetchLevelData\<close> and then for \<open>loadImage\<close>. After the second \<open>await\<close> the function
  no longer reads \<open>levelIndex\<close>.
\<close>

datatype task = InitAwaitsLevels | LoadAwaitsLevelData nat | LoadAwaitsImage

text \<open>
  The fields of the \<open>state\<close> object, followed by what the handlers read and write outside
  of it: the screen that \<open>showScreen\<close> left visible, the text of the error message element,
  the suspended tasks, and the number of 500 ms timers of \<open>handlePuzzleSolved\<close> that have
  not fired yet. The hint and progress texts, the CSS classes of the tiles and the 150 ms
  re-render timer of \<open>swapTiles\<close> change the page only and are left out.
\<close>

record state =
  levels :: "string list"
  currentLevelIndex :: nat
  currentLevel :: "level_data option"
  gridSize :: nat
  tiles :: "tile list"
  selectedTile :: "nat option"
  isSolved :: bool
  originalImage :: "image_element option"
  audioElement :: "audio_element option"
  shown :: screen
  errorMessage :: string
  suspended :: "task list"
  completionTimers :: nat

datatype error = TypeError

definition showScreen :: "screen \<Rightarrow> state \<Rightarrow> state" where
  "showScreen screenElement s = s\<lparr>shown := screenElement\<rparr>"

definition showError :: "string \<Rightarrow> state \<Rightarrow> state" where
  "showError message s = showScreen ErrorScreen (s\<lparr>errorMessage := message\<rparr>)"

definition checkSolved :: "state \<Rightarrow> bool" where
  "checkSolved s = boardSolved (tiles s)"

subsection \<open>Tile selection and swapping (lines 263--324)\<close>

text \<open>
  \<open>swapTiles\<close> exchanges the two entries of \<open>state.tiles\<close> and then marks the two tile
  elements of the page. \<open>renderPuzzle\<close> creates one tile element for every entry of
  \<open>state.tiles\<close>, so for an index that is not a position of the board the element is
  \<open>undefined\<close> and reading its \<open>classList\<close> throws a \<open>TypeError\<close>.
\<close>

definition swapTiles :: "nat \<Rightarrow> nat \<Rightarrow> state \<Rightarrow> error + state" where
  "swapTiles indexA indexB s =
     (if indexA < length (tiles s) \<and> indexB < length (tiles s)
      then Inr (s\<lparr>tiles := exchange indexA indexB (tiles s)\<rparr>)
      else Inl TypeError)"

definition handlePuzzleSolved :: "state \<Rightarrow> state" where
  "handlePuzzleSolved s = s\<lparr>isSolved := True, completionTimers := Suc (completionTimers s)\<rparr>"

definition handleTileClick :: "nat \<Rightarrow> state \<Rightarrow> error + state" where
  "handleTileClick index s =
     (if isSolved s then Inr s
      else (case selectedTile s of
        None \<Rightarrow>
          (if index < length (tiles s) then Inr (s\<lparr>selectedTile := Some index\<rparr>)
           else Inl TypeError)
      | Some selected \<Rightarrow>
          (if selected = index then
             (if index < length (tiles s) then Inr (s\<lparr>selectedTile := None\<rparr>)
              else Inl TypeError)
           else
             (case swapTiles selected index s of
                Inl e \<Rightarrow> Inl e
              | Inr swapped \<Rightarrow>
                  (let cleared = swapped\<lparr>selectedTile := None\<rparr>
                   in if checkSolved cleared then Inr (handlePuzzleSolved cleared)
                      else Inr cleared)))))"

subsection \<open>Completion and audio (lines 329--381)\<close>

definition createAndPlayAudio :: "state \<Rightarrow> error + state" where
  "createAndPlayAudio s =
     (let cleaned = (if audioElement s \<noteq> None then s\<lparr>audioElement := None\<rparr> else s)
      in case currentLevel cleaned of
           None \<Rightarrow> Inl TypeError
         | Some levelData \<Rightarrow>
             Inr (cleaned\<lparr>audioElement :=
               Some \<lparr>au_src = ''/levels/'' @ ld_level levelData @ ''/'' @ ld_audio levelData,
                     au_preload = ''auto''\<rparr>\<rparr>))"

definition showCompletionScreen :: "state \<Rightarrow> error + state" where
  "showCompletionScreen s =
     (case originalImage s of
        None \<Rightarrow> Inl TypeError
      | Some img \<Rightarrow> createAndPlayAudio (showScreen CompletionScreen s))"

text \<open>The click handler of the replay button: it only touches the playback of an existing element.\<close>

definition replayAudio :: "state \<Rightarrow> state" where
  "replayAudio s = (case audioElement s of None \<Rightarrow> s | Some playing \<Rightarrow> s)"

subsection \<open>Level management (lines 390--478)\<close>

text \<open>
  \<open>loadLevel\<close> in its segments between the \<open>await\<close>s: the start, the assignments after
  \<open>fetchLevelData\<close> has answered, the assignments after \<open>loadImage\<close> has answered, and the
  \<open>catch\<close> block. The answer of an awaited promise is \<open>Inr\<close> of its value or \<open>Inl\<close> of the
  message of the error it was rejected with.
\<close>

definition loadLevel_begin :: "nat \<Rightarrow> state \<Rightarrow> state" where
  "loadLevel_begin levelIndex s =
     (showScreen LoadingScreen s)\<lparr>suspended := suspended s @ [LoadAwaitsLevelData levelIndex]\<rparr>"

definition loadLevel_levelData :: "nat \<Rightarrow> level_data \<Rightarrow> state \<Rightarrow> state" where
  "loadLevel_levelData levelIndex levelData s =
     s\<lparr>currentLevel := Some levelData,
       currentLevelIndex := levelIndex,
       gridSize := calculateGridSize levelIndex\<rparr>"

definition loadLevel_image :: "image_element \<Rightarrow> (nat \<Rightarrow> rat) \<Rightarrow> state \<Rightarrow> state" where
  "loadLevel_image img rnd s =
     (let s1 = s\<lparr>originalImage := Some img\<rparr>;
          created = createTiles img (gridSize s1);
          s2 = s1\<lparr>tiles := shuffleTiles rnd created\<rparr>;
          s3 = s2\<lparr>selectedTile := None, isSolved := False\<rparr>;
          s4 = (if audioElement s3 \<noteq> None then s3\<lparr>audioElement := None\<rparr> else s3)
      in showScreen GameScreen s4)"

definition loadLevel_catch :: "string \<Rightarrow> state \<Rightarrow> state" where
  "loadLevel_catch message s = showError (''Failed to load level: '' @ message) s"

text \<open>
  \<open>loadLevel\<close> run from its call to its end, with the answers of the two promises given
  and no other handler running in between.
\<close>

definition loadLevel ::
  "nat \<Rightarrow> string + level_data \<Rightarrow> string + image_element \<Rightarrow> (nat \<Rightarrow> rat) \<Rightarrow> state \<Rightarrow> state"
where
  "loadLevel levelIndex dataAnswer imageAnswer rnd s =
     (let loading = showScreen LoadingScreen s
      in (case dataAnswer of
            Inl message \<Rightarrow> loadLevel_catch message loading
          | Inr levelData \<Rightarrow>
              (let fetched = loadLevel_levelData levelIndex levelData loading
               in (case imageAnswer of
                     Inl message \<Rightarrow> loadLevel_catch message fetched
                   | Inr img \<Rightarrow> loadLevel_image img rnd fetched))))"

definition nextLevel :: "state \<Rightarrow> state" where
  "nextLevel s =
     (if int (currentLevelIndex s) \<ge> int (length (levels s)) - 1
      then showScreen FinalScreen s
      else loadLevel_begin (currentLevelIndex s + 1) s)"

definition restart :: "state \<Rightarrow> state" where
  "restart s = loadLevel_begin 0 (s\<lparr>currentLevelIndex := 0\<rparr>)"

definition init_begin :: "state \<Rightarrow> state" where
  "init_begin s = (showScreen LoadingScreen s)\<lparr>suspended := suspended s @ [InitAwaitsLevels]\<rparr>"

definition init_levels :: "string list \<Rightarrow> state \<Rightarrow> state" where
  "init_levels fetched s = showScreen WelcomeScreen (s\<lparr>levels := fetched\<rparr>)"

definition init_catch :: "string \<Rightarrow> state \<Rightarrow> state" where
  "init_catch message s =
     showError (if message = [] then ''Failed to initialize game'' else message) s"


section \<open>The event loop\<close>

text \<open>
  The handlers are attached by \<open>setupEventListeners\<close> and \<open>renderPuzzle\<close> to five buttons
  and to the tile elements of the puzzle container. Which screen each of them sits on is
  written in \<open>index.html\<close>, which is not among the sources; the event loop takes this
  placement as a parameter. A control receives clicks only while its screen is the one
  that \<open>showScreen\<close> left visible, and a tile element exists only for a position of the
  board.
\<close>

datatype control = RetryBtn | StartBtn | PuzzleContainer | ReplayBtn | NextBtn | RestartBtn

datatype event =
    ClickRetry
  | ClickStart
  | ClickTile nat
  | ClickReplay
  | ClickNext
  | ClickRestart
  | LevelsAnswer "string + string list"
  | LevelDataAnswer nat "string + level_data"
  | ImageAnswer "string + image_element" "nat \<Rightarrow> rat"
  | CompletionTimeout

definition completed :: "error + state \<Rightarrow> state option" where
  "completed outcome = (case outcome of Inl e \<Rightarrow> None | Inr s \<Rightarrow> Some s)"

definition resumed :: "task \<Rightarrow> state \<Rightarrow> state" where
  "resumed t s = s\<lparr>suspended := remove1 t (suspended s)\<rparr>"

text \<open>
  One turn of the event loop: \<open>None\<close> when the event cannot happen in this state (the
  control is hidden, no such task is suspended, no timer is pending) or when the handler
  ends with an uncaught exception.
\<close>

fun fire :: "(control \<Rightarrow> screen) \<Rightarrow> event \<Rightarrow> state \<Rightarrow> state option" where
  "fire placed ClickRetry s =
     (if shown s = placed RetryBtn then Some (init_begin s) else None)"
| "fire placed ClickStart s =
     (if shown s = placed StartBtn then Some (loadLevel_begin 0 s) else None)"
| "fire placed (ClickTile index) s =
     (if shown s = placed PuzzleContainer \<and> index < length (tiles s)
      then completed (handleTileClick index s) else None)"
| "fire placed ClickReplay s =
     (if shown s = placed ReplayBtn then Some (replayAudio s) else None)"
| "fire placed ClickNext s =
     (if shown s = placed NextBtn then Some (nextLevel s) else None)"
| "fire placed ClickRestart s =
     (if shown s = placed RestartBtn then Some (restart s) else None)"
| "fire placed (LevelsAnswer answer) s =
     (if InitAwaitsLevels \<in> set (suspended s)
      then (case answer of
              Inl message \<Rightarrow> Some (init_catch message (resumed InitAwaitsLevels s))
            | Inr fetched \<Rightarrow> Some (init_levels fetched (resumed InitAwaitsLevels s)))
      else None)"
| "fire placed (LevelDataAnswer levelIndex answer) s =
     (if LoadAwaitsLevelData levelIndex \<in> set (suspended s)
      then (case answer of
              Inl message \<Rightarrow>
                Some (loadLevel_catch message (resumed (LoadAwaitsLevelData levelIndex) s))
            | Inr levelData \<Rightarrow>
                (let fetched = loadLevel_levelData levelIndex levelData
                                 (resumed (LoadAwaitsLevelData levelIndex) s)
                 in Some (fetched\<lparr>suspended := suspended fetched @ [LoadAwaitsImage]\<rparr>)))
      else None)"
| "fire placed (ImageAnswer answer rnd) s =
     (if LoadAwaitsImage \<in> set (suspended s)
      then (case answer of
              Inl message \<Rightarrow> Some (loadLevel_catch message (resumed LoadAwaitsImage s))
            | Inr img \<Rightarrow> Some (loadLevel_image img rnd (resumed LoadAwaitsImage s)))
      else None)"
| "fire placed CompletionTimeout s =
     (if completionTimers s > 0
      then completed (showCompletionScreen (s\<lparr>completionTimers := completionTimers s - 1\<rparr>))
      else None)"

fun run :: "(control \<Rightarrow> screen) \<Rightarrow> event list \<Rightarrow> state \<Rightarrow> state option" where
  "run placed [] s = Some s"
| "run placed (e # es) s =
     (case fire placed e s of None \<Rightarrow> None | Some s' \<Rightarrow> run placed es s')"

text \<open>
  The \<open>state\<close> literal of the script, and the state once \<open>DOMContentLoaded\<close> has called
  \<open>init\<close>, which shows the loading screen and waits for the list of levels.
\<close>

definition initialState :: state where
  "initialState =
     \<lparr>levels = [], currentLevelIndex = 0, currentLevel = None, gridSize = 3, tiles = [],
      selectedTile = None, isSolved = False, originalImage = None, audioElement = None,
      shown = LoadingScreen, errorMessage = [], suspended = [], completionTimers = 0\<rparr>"

definition pageLoaded :: state where
  "pageLoaded = init_begin initialState"

text \<open>
  The placements under which the audio invariant is proved: the puzzle container is not on
  the loading screen, and the four buttons whose handlers start \<open>init\<close> or \<open>loadLevel\<close> are
  neither on the loading screen nor on the screen of the puzzle container.
\<close>

definition separated :: "(control \<Rightarrow> screen) \<Rightarrow> bool" where
  "separated placed \<longleftrightarrow>
     placed PuzzleContainer \<noteq> LoadingScreen \<and>
     list_all (\<lambda>button. placed button \<noteq> LoadingScreen \<and> placed button \<noteq> placed PuzzleContainer)
       [RetryBtn, StartBtn, NextBtn, RestartBtn]"

text \<open>The placement that the names of the elements suggest.\<close>

fun byName :: "control \<Rightarrow> screen" where
  "byName RetryBtn = ErrorScreen"
| "byName StartBtn = WelcomeScreen"
| "byName PuzzleContainer = GameScreen"
| "byName ReplayBtn = CompletionScreen"
| "byName NextBtn = CompletionScreen"
| "byName RestartBtn = FinalScreen"

section \<open>Sample data\<close>

text \<open>Draws of \<open>Math.random()\<close> given as a list, indexed by the loop variable.\<close>

definition drawsFrom :: "rat list \<Rightarrow> nat \<Rightarrow> rat" where
  "drawsFrom rs i = (if i < length rs then rs ! i else 0)"

text \<open>The board that shows, at each position, the tile of a solved board with the given ordinal.\<close>

definition arranged :: "tile list \<Rightarrow> nat list \<Rightarrow> tile list" where
  "arranged solved ordinals = map (\<lambda>k. solved ! k) ordinals"

definition sampleImage :: image_element where
  "sampleImage = \<lparr>img_src = ''/levels/level_1/photo.jpg'', img_width = 600, img_height = 600\<rparr>"

definition sampleLevel :: level_data where
  "sampleLevel = \<lparr>ld_level = ''level_1'', ld_image = ''photo.jpg'', ld_audio = ''message.mp3''\<rparr>"

definition nextSampleLevel :: level_data where
  "nextSampleLevel = \<lparr>ld_level = ''level_2'', ld_image = ''photo.jpg'', ld_audio = ''memory.mp3''\<rparr>"

definition solvedFirstLevel :: state where
  "solvedFirstLevel =
     \<lparr>levels = [''level_1'', ''level_2''], currentLevelIndex = 0,
      currentLevel = Some sampleLevel, gridSize = 3, tiles = createTiles sampleImage 3,
      selectedTile = None, isSolved = True, originalImage = Some sampleImage,
      audioElement = Some \<lparr>au_src = ''/levels/level_1/message.mp3'', au_preload = ''auto''\<rparr>,
      shown = CompletionScreen, errorMessage = [], suspended = [], completionTimers = 0\<rparr>"

text \<open>
  Draws that make the Fisher-Yates loop on nine tiles exchange positions 8 and 7 and
  positions 1 and 0 and nothing else.
\<close>

definition sampleDraws :: "nat \<Rightarrow> rat" where
  "sampleDraws = drawsFrom [0, 0, 2/3, 3/4, 4/5, 5/6, 6/7, 7/8, 7/9]"

section \<open>Predicates on events and states\<close>

text \<open>The one event that completes a level load: the image has arrived.\<close>

fun loadCompletes :: "event \<Rightarrow> bool" where
  "loadCompletes (ImageAnswer (Inr img) rnd) = True"
| "loadCompletes e = False"

text \<open>
  The invariant of the event loop. An unsolved state has neither an audio element nor a
  pending completion timer. A solved state either still waits for its one completion
  timer, with the puzzle on display, no audio element and no task suspended, or the timer
  has fired and the audio element exists. A suspended task is alone and the loading
  screen is shown. The remaining parts say that the data the handlers dereference is
  there.
\<close>

definition consistent :: "(control \<Rightarrow> screen) \<Rightarrow> state \<Rightarrow> bool" where
  "consistent placed s \<longleftrightarrow>
     (if isSolved s
      then (completionTimers s = 1 \<and> audioElement s = None
              \<and> shown s = placed PuzzleContainer \<and> suspended s = [])
           \<or> (completionTimers s = 0 \<and> audioElement s \<noteq> None)
      else audioElement s = None \<and> completionTimers s = 0)
     \<and> (if suspended s = [] then True
         else shown s = LoadingScreen \<and> length (suspended s) = 1)
     \<and> (if isSolved s then tiles s \<noteq> [] else True)
     \<and> (if tiles s = [] then True else originalImage s \<noteq> None \<and> currentLevel s \<noteq> None)
     \<and> (if LoadAwaitsImage \<in> set (suspended s) then currentLevel s \<noteq> None else True)
     \<and> (if selectedTile s = None then True else the (selectedTile s) < length (tiles s))"

text \<open>Sample states: the first level just solved, and the first level freshly shuffled.\<close>

definition justSolved :: state where
  "justSolved =
     solvedFirstLevel\<lparr>audioElement := None, shown := GameScreen, completionTimers := 1\<rparr>"

definition freshPuzzle :: state where
  "freshPuzzle =
     solvedFirstLevel\<lparr>tiles := arranged (createTiles sampleImage 3) [1, 0, 2, 3, 4, 5, 6, 8, 7],
                      isSolved := False, audioElement := None, shown := GameScreen\<rparr>"

definition sampleSession :: "event list" where
  "sampleSession =
     [LevelsAnswer (Inr [''level_1'', ''level_2'']), ClickStart,
      LevelDataAnswer 0 (Inr sampleLevel), ImageAnswer (Inr sampleImage) sampleDraws,
      ClickTile 0, ClickTile 1, ClickTile 7, ClickTile 8, CompletionTimeout]"

section \<open>Lemmas about the shuffle engine\<close>

lemma randomIndex_le:
  assumes "0 \<le> rnd i" "rnd i < 1"
  shows "randomIndex rnd i \<le> i"
proof -
  have "rnd i * (of_nat i + 1) < of_nat i + 1"
    using assms by (simp add: mult_less_cancel_right2 add_pos_nonneg)
  then have "rnd i * (of_nat i + 1) < of_int (int i + 1)"
    by simp
  then have "\<lfloor>rnd i * (of_nat i + 1)\<rfloor> < int i + 1"
    by (simp only: floor_less_iff)
  then show ?thesis
    by (simp add: randomIndex_def)
qed

lemma fisherYatesLoop_mset:
  assumes "\<forall>i. 0 \<le> rnd i \<and> rnd i < 1"
  shows "k < length xs \<Longrightarrow> mset (fisherYatesLoop rnd k xs) = mset xs"
proof (induction k arbitrary: xs)
  case 0
  then show ?case by simp
next
  case (Suc k)
  have j: "randomIndex rnd (Suc k) < length xs"
    using randomIndex_le [of rnd "Suc k"] assms Suc.prems by (meson le_less_trans)
  have "mset (xs[Suc k := xs ! randomIndex rnd (Suc k), randomIndex rnd (Suc k) := xs ! Suc k])
        = mset xs"
    using mset_swap [OF j Suc.prems] by simp
  moreover have "k < length (xs[Suc k := xs ! randomIndex rnd (Suc k),
                                 randomIndex rnd (Suc k) := xs ! Suc k])"
    using Suc.prems by simp
  ultimately show ?case
    using Suc.IH by (simp add: Let_def)
qed

lemma fisherYates_mset:
  assumes "\<forall>i. 0 \<le> rnd i \<and> rnd i < 1"
  shows "mset (fisherYates rnd xs) = mset xs"
proof (cases xs)
  case Nil
  then show ?thesis by (simp add: fisherYates_def)
next
  case (Cons x ys)
  then have "length xs - 1 < length xs" by simp
  then show ?thesis
    unfolding fisherYates_def by (rule fisherYatesLoop_mset [OF assms])
qed

lemma sum_list_indicator:
  "sum_list (map (\<lambda>x. if P x then 1 else 0) xs) = length (filter P xs)"
  by (induction xs) simp_all

lemma inner_count:
  "sum_list (map (\<lambda>j. if P (ts ! j) then 1 else (0::nat)) [0..<length ts]) = length (filter P ts)"
proof -
  have "map (\<lambda>j. if P (ts ! j) then 1 else (0::nat)) [0..<length ts]
        = map (\<lambda>x. if P x then 1 else 0) (map (\<lambda>j. ts ! j) [0..<length ts])"
    by simp
  also have "\<dots> = map (\<lambda>x. if P x then 1 else 0) ts"
    by (simp only: map_nth)
  finally show ?thesis
    by (simp only: sum_list_indicator)
qed

lemma countInversions_Nil: "countInversions [] = 0"
  by (simp add: countInversions_def)

lemma countInversions_Cons:
  "countInversions (t # ts) =
     length (filter (\<lambda>u. originalIndex t > originalIndex u) ts) + countInversions ts"
proof -
  have outer: "[0..<Suc (length ts)] = 0 # map Suc [0..<length ts]"
    by (simp add: upt_conv_Cons map_Suc_upt del: upt_Suc)
  have inner: "\<And>i. [Suc i..<Suc (length ts)] = map Suc [i..<length ts]"
    by (simp add: map_Suc_upt del: upt_Suc)
  show ?thesis
    unfolding countInversions_def Let_def
    by (simp add: outer inner comp_def
        inner_count [where P = "\<lambda>u. originalIndex u < originalIndex t"] del: upt_Suc)
qed


lemma every_iff:
  "every callback index xs \<longleftrightarrow> (\<forall>i<length xs. callback (xs ! i) (index + i))"
proof (induction xs arbitrary: index)
  case Nil
  then show ?case by simp
next
  case (Cons x xs)
  show ?case
  proof
    assume a: "every callback index (x # xs)"
    then have hd: "callback x index" and tl: "every callback (Suc index) xs"
      by (simp_all split: if_splits)
    show "\<forall>i<length (x # xs). callback ((x # xs) ! i) (index + i)"
    proof (intro allI impI)
      fix i assume "i < length (x # xs)"
      then show "callback ((x # xs) ! i) (index + i)"
        using hd tl Cons.IH [of "Suc index"] by (cases i) auto
    qed
  next
    assume a: "\<forall>i<length (x # xs). callback ((x # xs) ! i) (index + i)"
    then have "callback x index" by force
    moreover have "\<forall>i<length xs. callback (xs ! i) (Suc index + i)"
      using a by force
    ultimately show "every callback index (x # xs)"
      using Cons.IH [of "Suc index"] by simp
  qed
qed

lemma boardSolved_iff:
  "boardSolved board \<longleftrightarrow> (\<forall>i<length board. originalIndex (board ! i) = i)"
  by (simp add: boardSolved_def every_iff)

lemma boardSolved_map:
  "boardSolved board \<longleftrightarrow> map originalIndex board = [0..<length board]"
proof -
  have "map originalIndex board = [0..<length board] \<longleftrightarrow>
        length (map originalIndex board) = length [0..<length board] \<and>
        (\<forall>i<length (map originalIndex board).
           map originalIndex board ! i = [0..<length board] ! i)"
    by (rule list_eq_iff_nth_eq)
  also have "\<dots> \<longleftrightarrow> (\<forall>i<length board. originalIndex (board ! i) = i)"
    by simp
  finally show ?thesis
    by (simp only: boardSolved_iff)
qed

lemma createTiles_rows:
  "concat (map (\<lambda>row. map (\<lambda>col. row * g + col) [0..<g]) [0..<m]) = [0..<m * g]"
proof (induction m)
  case 0
  then show ?case by simp
next
  case (Suc m)
  have "map (\<lambda>col. m * g + col) [0..<g] = map (\<lambda>col. col + m * g) [0..<g]"
    by (simp add: add.commute)
  also have "\<dots> = [m * g..<g + m * g]"
    by (rule map_add_upt)
  finally have row: "map (\<lambda>col. m * g + col) [0..<g] = [m * g..<m * g + g]"
    by (simp add: add.commute)
  have "[0..<m * g + g] = [0..<m * g] @ [m * g..<m * g + g]"
    by (rule upt_add_eq_append) simp
  then show ?case
    using Suc row by (simp add: add.commute)
qed

lemma createTiles_originalIndex:
  "map originalIndex (createTiles img n) = [0..<n * n]"
proof -
  have "map originalIndex (createTiles img n)
        = concat (map (\<lambda>row. map (\<lambda>col. row * n + col) [0..<n]) [0..<n])"
    by (simp add: createTiles_def map_concat comp_def)
  then show ?thesis
    by (simp only: createTiles_rows)
qed

lemma createTiles_length: "length (createTiles img n) = n * n"
  using arg_cong [OF createTiles_originalIndex, of length img n] by simp

lemma createTiles_solved: "boardSolved (createTiles img n)"
  by (simp add: boardSolved_map createTiles_originalIndex createTiles_length)


lemma countInversions_short: "length xs < 2 \<Longrightarrow> countInversions xs = 0"
proof (cases xs)
  case Nil
  then show ?thesis by (simp add: countInversions_Nil)
next
  case (Cons x ys)
  assume "length xs < 2"
  with Cons have "ys = []" by simp
  with Cons show ?thesis by (simp add: countInversions_Cons countInversions_Nil)
qed

lemma exchange_first_two: "(a # b # rest)[0 := (a # b # rest) ! 1, 1 := (a # b # rest) ! 0] = b # a # rest"
  by simp

lemma countInversions_first_two:
  "countInversions (a # b # rest) =
     (if originalIndex a > originalIndex b then 1 else 0)
     + length (filter (\<lambda>u. originalIndex a > originalIndex u) rest)
     + length (filter (\<lambda>u. originalIndex b > originalIndex u) rest)
     + countInversions rest"
  by (simp add: countInversions_Cons)

lemma countInversions_swap_parity:
  assumes "originalIndex a \<noteq> originalIndex b"
  shows "even (countInversions (b # a # rest)) \<longleftrightarrow> odd (countInversions (a # b # rest))"
proof (cases "originalIndex a > originalIndex b")
  case True
  then have "countInversions (a # b # rest) = Suc (countInversions (b # a # rest))"
    by (simp add: countInversions_first_two)
  then show ?thesis by simp
next
  case False
  with assms have "originalIndex b > originalIndex a" by simp
  then have "countInversions (b # a # rest) = Suc (countInversions (a # b # rest))"
    by (simp add: countInversions_first_two)
  then show ?thesis by simp
qed

lemma parityFix_even:
  assumes "distinct (map originalIndex xs)"
  shows "even (countInversions (parityFix xs))"
proof (cases "even (countInversions xs)")
  case True
  then show ?thesis by (simp add: parityFix_def Let_def even_iff_mod_2_eq_zero)
next
  case False
  then have "\<not> length xs < 2"
    using countInversions_short [of xs] by auto
  then obtain a b rest where xs: "xs = a # b # rest"
    by (cases xs; cases "tl xs") auto
  have ne: "originalIndex a \<noteq> originalIndex b"
    using assms xs by auto
  have "parityFix xs = b # a # rest"
    using False xs by (simp add: parityFix_def Let_def even_iff_mod_2_eq_zero)
  then show ?thesis
    using countInversions_swap_parity [OF ne, of rest] False xs by simp
qed

lemma countInversions_sorted:
  "sorted (map originalIndex ts) \<Longrightarrow> countInversions ts = 0"
proof (induction ts)
  case Nil
  then show ?case by (simp add: countInversions_Nil)
next
  case (Cons t ts)
  then have "\<forall>u\<in>set ts. originalIndex t \<le> originalIndex u" by simp
  then have "filter (\<lambda>u. originalIndex t > originalIndex u) ts = []"
    by (auto simp: filter_empty_conv)
  then show ?case
    using Cons by (simp add: countInversions_Cons)
qed

lemma countInversions_solved: "boardSolved ts \<Longrightarrow> countInversions ts = 0"
  by (rule countInversions_sorted) (simp add: boardSolved_map)

lemma countInversions_solved_exchanged:
  assumes "boardSolved ts" "length ts > 1"
  shows "countInversions (exchange 0 1 ts) = 1"
proof -
  obtain a b rest where ts: "ts = a # b # rest"
    using assms(2) by (cases ts; cases "tl ts") auto
  have keys: "map originalIndex (a # b # rest) = [0..<length (a # b # rest)]"
    using assms(1) ts by (simp add: boardSolved_map)
  then have srt: "sorted (map originalIndex (a # b # rest))"
    by (simp only: sorted_upt)
  have dst: "distinct (map originalIndex (a # b # rest))"
    using keys by (simp only: distinct_upt)
  have lt: "originalIndex a < originalIndex b"
    using srt dst by (simp add: less_le)
  have a0: "filter (\<lambda>u. originalIndex a > originalIndex u) rest = []"
    using srt by (auto simp: filter_empty_conv)
  have b0: "filter (\<lambda>u. originalIndex b > originalIndex u) rest = []"
    using srt by (auto simp: filter_empty_conv)
  have r0: "countInversions rest = 0"
    using srt by (intro countInversions_sorted) simp
  have "exchange 0 1 ts = b # a # rest"
    by (simp add: ts exchange_def)
  then show ?thesis
    using lt a0 b0 r0 by (simp add: countInversions_first_two)
qed

lemma same_keys_same_list:
  assumes "mset xs = mset ys" "map f xs = map f ys" "inj_on f (set ys)"
  shows "xs = ys"
proof (rule nth_equalityI)
  show len: "length xs = length ys"
    using assms(2) by (rule map_eq_imp_length_eq)
  fix i assume i: "i < length xs"
  have sets: "set xs = set ys"
    using assms(1) by (rule mset_eq_setD)
  have "xs ! i \<in> set xs"
    using i by (rule nth_mem)
  then have x: "xs ! i \<in> set ys"
    by (simp only: sets)
  have y: "ys ! i \<in> set ys"
    using i len by (intro nth_mem) simp
  have "map f xs ! i = map f ys ! i"
    by (simp only: assms(2))
  then have "f (xs ! i) = f (ys ! i)"
    using i len by simp
  with assms(3) show "xs ! i = ys ! i"
    using x y by (rule inj_onD)
qed

lemma exchange_involution:
  assumes "a < length xs" "b < length xs"
  shows "exchange a b (exchange a b xs) = xs"
proof (rule nth_equalityI)
  show "length (exchange a b (exchange a b xs)) = length xs"
    by (simp add: exchange_def)
  fix i assume "i < length (exchange a b (exchange a b xs))"
  then have i: "i < length xs" by (simp add: exchange_def)
  show "exchange a b (exchange a b xs) ! i = xs ! i"
    using assms i by (cases "i = a"; cases "i = b") (simp_all add: exchange_def)
qed

lemma exchange_mset:
  "a < length xs \<Longrightarrow> b < length xs \<Longrightarrow> mset (exchange a b xs) = mset xs"
  unfolding exchange_def using mset_swap [of b xs a] by simp

lemma boardSolved_unique:
  assumes "boardSolved ts" "boardSolved us" "mset us = mset ts"
  shows "us = ts"
proof -
  have len: "length us = length ts"
    using assms(3) by (rule mset_eq_length)
  have keys: "map originalIndex us = map originalIndex ts"
    using assms(1,2) len by (simp add: boardSolved_map)
  have "distinct (map originalIndex ts)"
    using assms(1) by (simp add: boardSolved_map)
  then have "inj_on originalIndex (set ts)"
    by (simp add: distinct_map)
  then show ?thesis
    using assms(3) keys by (intro same_keys_same_list [where f = originalIndex])
qed


lemma fisherYates_distinct:
  assumes "\<forall>i. 0 \<le> rnd i \<and> rnd i < 1" "distinct (map originalIndex board)"
  shows "distinct (map originalIndex (fisherYates rnd board))"
proof -
  have "mset (map originalIndex (fisherYates rnd board)) = mset (map originalIndex board)"
    using fisherYates_mset [OF assms(1), of board] by simp
  then show ?thesis
    using assms(2) by (metis mset_eq_imp_distinct_iff)
qed

lemma parityFix_mset: "mset (parityFix xs) = mset xs"
proof (cases "even (countInversions xs)")
  case True
  then show ?thesis by (simp add: parityFix_def Let_def even_iff_mod_2_eq_zero)
next
  case False
  then have "\<not> length xs < 2"
    using countInversions_short [of xs] by auto
  then have "0 < length xs" "1 < length xs" by linarith+
  then have "mset (xs[0 := xs ! 1, 1 := xs ! 0]) = mset xs"
    using mset_swap [of 1 xs 0] by simp
  then show ?thesis by (simp add: parityFix_def Let_def)
qed

lemma shuffleTiles_mset:
  assumes "\<forall>i. 0 \<le> rnd i \<and> rnd i < 1"
  shows "mset (shuffleTiles rnd board) = mset board"
  by (simp add: shuffleTiles_def parityFix_mset fisherYates_mset [OF assms])

lemma swaps_mset:
  assumes "\<forall>(a, b)\<in>set swaps. a < length board \<and> b < length board"
  shows "mset (foldl (\<lambda>b (indexA, indexB). exchange indexA indexB b) board swaps) = mset board"
  using assms
proof (induction swaps arbitrary: board)
  case Nil
  then show ?case by simp
next
  case (Cons p swaps)
  obtain a b where p: "p = (a, b)" by (cases p)
  have ab: "a < length board" "b < length board"
    using Cons.prems p by auto
  have len: "length (exchange a b board) = length board"
    by (simp add: exchange_def)
  have "mset (foldl (\<lambda>b (indexA, indexB). exchange indexA indexB b) (exchange a b board) swaps)
        = mset (exchange a b board)"
    using Cons.prems by (intro Cons.IH) (simp add: len)
  then show ?case
    using ab by (simp add: p exchange_mset)
qed


lemma drawsFrom_valid:
  assumes "\<forall>r\<in>set rs. 0 \<le> r \<and> r < 1"
  shows "0 \<le> drawsFrom rs i \<and> drawsFrom rs i < 1"
proof (cases "i < length rs")
  case True
  then have "rs ! i \<in> set rs" by (rule nth_mem)
  with assms True show ?thesis by (simp add: drawsFrom_def)
next
  case False
  then show ?thesis by (simp add: drawsFrom_def)
qed

lemma fisherYates_short: "length board \<le> 1 \<Longrightarrow> fisherYates rnd board = board"
proof -
  assume "length board \<le> 1"
  then have "length board - 1 = 0" by simp
  then show ?thesis by (simp add: fisherYates_def)
qed

lemma createTiles_2:
  "createTiles img 2 =
     [\<lparr>originalIndex = 0, canvas = \<lparr>cv_image = img, cv_gridSize = 2, cv_row = 0, cv_col = 0\<rparr>\<rparr>,
      \<lparr>originalIndex = 1, canvas = \<lparr>cv_image = img, cv_gridSize = 2, cv_row = 0, cv_col = 1\<rparr>\<rparr>,
      \<lparr>originalIndex = 2, canvas = \<lparr>cv_image = img, cv_gridSize = 2, cv_row = 1, cv_col = 0\<rparr>\<rparr>,
      \<lparr>originalIndex = 3, canvas = \<lparr>cv_image = img, cv_gridSize = 2, cv_row = 1, cv_col = 1\<rparr>\<rparr>]"
  by (simp add: createTiles_def upt_conv_Cons)

lemma fisherYates_4:
  "fisherYates rnd [a, b, c, d] =
     (let s3 = [a, b, c, d][3 := [a, b, c, d] ! randomIndex rnd 3, randomIndex rnd 3 := d];
          s2 = s3[2 := s3 ! randomIndex rnd 2, randomIndex rnd 2 := s3 ! 2]
      in s2[1 := s2 ! randomIndex rnd 1, randomIndex rnd 1 := s2 ! 1])"
proof -
  have "fisherYates rnd [a, b, c, d] = fisherYatesLoop rnd (Suc (Suc (Suc 0))) [a, b, c, d]"
    by (simp add: fisherYates_def)
  also have "\<dots> = (let s3 = [a, b, c, d][3 := [a, b, c, d] ! randomIndex rnd 3, randomIndex rnd 3 := d];
          s2 = s3[2 := s3 ! randomIndex rnd 2, randomIndex rnd 2 := s3 ! 2]
      in s2[1 := s2 ! randomIndex rnd 1, randomIndex rnd 1 := s2 ! 1])"
    by (simp add: Let_def numeral_3_eq_3 numeral_2_eq_2)
  finally show ?thesis .
qed

lemma countInversions_4:
  "countInversions [a, b, c, d] =
     (if originalIndex a > originalIndex b then 1 else 0)
   + (if originalIndex a > originalIndex c then 1 else 0)
   + (if originalIndex a > originalIndex d then 1 else 0)
   + (if originalIndex b > originalIndex c then 1 else 0)
   + (if originalIndex b > originalIndex d then 1 else 0)
   + (if originalIndex c > originalIndex d then 1 else 0)"
  by (simp add: countInversions_Cons countInversions_Nil)

section \<open>Properties of the shuffle engine\<close>

text \<open>
  Claim C8. For every level index the grid size is \<open>min (3 + levelIndex) 6\<close>; for the level
  indices 0, 1, 2, 3, 4 it is 3, 4, 5, 6, 6.
\<close>

theorem calculateGridSize_capped:
  "calculateGridSize levelIndex = min (3 + levelIndex) 6
   \<and> map calculateGridSize [0, 1, 2, 3, 4] = [3, 4, 5, 6, 6]"
  by (simp add: calculateGridSize_def)

text \<open>
  Claim C5. \<open>checkSolved\<close> is a function of the state that returns a boolean and nothing
  else; it is true exactly when every position of the board holds the tile whose
  \<open>originalIndex\<close> is that position.
\<close>

theorem checkSolved_iff:
  "checkSolved s \<longleftrightarrow> (\<forall>i<length (tiles s). originalIndex (tiles s ! i) = i)"
  by (simp add: checkSolved_def boardSolved_iff)

theorem checkSolved_iff_witness:
  "checkSolved (initialState\<lparr>tiles := createTiles sampleImage 2\<rparr>)
   \<and> \<not> checkSolved (initialState\<lparr>tiles := exchange 0 1 (createTiles sampleImage 2)\<rparr>)"
proof
  have "\<forall>i<length (createTiles sampleImage 2). originalIndex (createTiles sampleImage 2 ! i) = i"
    using createTiles_solved [of sampleImage 2] by (simp only: boardSolved_iff)
  then show "checkSolved (initialState\<lparr>tiles := createTiles sampleImage 2\<rparr>)"
    by (intro iffD2 [OF checkSolved_iff]) simp
  have "\<not> (\<forall>i<length (exchange 0 1 (createTiles sampleImage 2)).
             originalIndex (exchange 0 1 (createTiles sampleImage 2) ! i) = i)"
    by (simp add: createTiles_2 exchange_def) (rule exI [of _ 0], simp)
  then show "\<not> checkSolved (initialState\<lparr>tiles := exchange 0 1 (createTiles sampleImage 2)\<rparr>)"
    using checkSolved_iff [of "initialState\<lparr>tiles := exchange 0 1 (createTiles sampleImage 2)\<rparr>"]
    by simp
qed

text \<open>
  Claim C10. On a board of at most one tile the Fisher-Yates loop does not run, the
  inversion count is zero, so the exchange of positions 0 and 1 is not taken, and the board
  comes back unchanged; if it was in solved order, the solved check accepts it.
\<close>

theorem shuffleTiles_small:
  assumes "length board \<le> 1"
  shows "fisherYates rnd board = board
         \<and> countInversions (fisherYates rnd board) = 0
         \<and> shuffleTiles rnd board = board
         \<and> (boardSolved board \<longrightarrow> boardSolved (shuffleTiles rnd board))"
proof -
  have fy: "fisherYates rnd board = board"
    using assms by (rule fisherYates_short)
  have inv: "countInversions board = 0"
    using assms by (intro countInversions_short) simp
  have "shuffleTiles rnd board = board"
    by (simp add: shuffleTiles_def parityFix_def fy inv)
  then show ?thesis
    using fy inv by simp
qed

theorem shuffleTiles_small_witness:
  "length (createTiles sampleImage 1) \<le> 1
   \<and> boardSolved (createTiles sampleImage 1)
   \<and> shuffleTiles (drawsFrom []) (createTiles sampleImage 1) = createTiles sampleImage 1
   \<and> boardSolved (shuffleTiles (drawsFrom []) (createTiles sampleImage 1))"
proof -
  have len: "length (createTiles sampleImage 1) \<le> 1"
    by (simp add: createTiles_length)
  show ?thesis
    using shuffleTiles_small [OF len, of "drawsFrom []"] len createTiles_solved [of sampleImage 1]
    by simp
qed

text \<open>
  Claim C2. Whatever \<open>Math.random\<close> returns, the board that \<open>shuffleTiles\<close> makes from a
  board in solved order, and every board reached from it by exchanges of two positions,
  carries each of the ordinals \<open>0, \<dots>, n - 1\<close> exactly once.
\<close>

theorem permutation_invariant:
  assumes "\<forall>i. 0 \<le> rnd i \<and> rnd i < 1"
    and "boardSolved board"
    and "\<forall>(a, b)\<in>set swaps. a < length board \<and> b < length board"
  shows "mset (map originalIndex
           (foldl (\<lambda>b (indexA, indexB). exchange indexA indexB b) (shuffleTiles rnd board) swaps))
         = mset_set {0..<length board}"
proof -
  have sh: "mset (shuffleTiles rnd board) = mset board"
    by (rule shuffleTiles_mset [OF assms(1)])
  then have "length (shuffleTiles rnd board) = length board"
    by (rule mset_eq_length)
  then have "mset (foldl (\<lambda>b (indexA, indexB). exchange indexA indexB b)
               (shuffleTiles rnd board) swaps) = mset (shuffleTiles rnd board)"
    using assms(3) by (intro swaps_mset) simp
  then have "mset (map originalIndex (foldl (\<lambda>b (indexA, indexB). exchange indexA indexB b)
               (shuffleTiles rnd board) swaps)) = mset (map originalIndex board)"
    using sh by simp
  also have "\<dots> = mset [0..<length board]"
    using assms(2) by (simp add: boardSolved_map)
  finally show ?thesis
    by (simp only: mset_upt)
qed

theorem permutation_invariant_witness:
  "(\<forall>i. 0 \<le> drawsFrom [0, 1/2, 2/3, 0] i \<and> drawsFrom [0, 1/2, 2/3, 0] i < 1)
   \<and> boardSolved (createTiles sampleImage 2)
   \<and> length (createTiles sampleImage 2) = 4
   \<and> mset (map originalIndex
        (foldl (\<lambda>b (indexA, indexB). exchange indexA indexB b)
           (shuffleTiles (drawsFrom [0, 1/2, 2/3, 0]) (createTiles sampleImage 2))
           [(0, 3), (1, 2)]))
      = mset_set {0..<length (createTiles sampleImage 2)}"
proof -
  have draws: "\<forall>i. 0 \<le> drawsFrom [0, 1/2, 2/3, 0] i \<and> drawsFrom [0, 1/2, 2/3, 0] i < 1"
    by (intro allI drawsFrom_valid) simp
  have solved: "boardSolved (createTiles sampleImage 2)"
    by (rule createTiles_solved)
  have len: "length (createTiles sampleImage 2) = 4"
    by (simp add: createTiles_length)
  have swaps: "\<forall>(a, b)\<in>set [(0, 3), (1, 2)].
         a < length (createTiles sampleImage 2) \<and> b < length (createTiles sampleImage 2)"
    by (simp add: createTiles_length)
  show ?thesis
    using permutation_invariant [OF draws solved swaps] draws solved len by blast
qed

text \<open>
  Claim C3, as the code has it. The claim that a board of more than one tile never comes
  back solved fails: when every draw picks \<open>j = i\<close> the Fisher-Yates loop leaves each tile
  in place, the inversion count is zero and the solved board is returned.
\<close>

theorem shuffleTiles_returns_solved_board:
  "1 < length (createTiles sampleImage 2)
   \<and> boardSolved (createTiles sampleImage 2)
   \<and> drawsFrom [0, 1/2, 2/3, 3/4] 1 = 1/2
   \<and> drawsFrom [0, 1/2, 2/3, 3/4] 2 = 2/3
   \<and> drawsFrom [0, 1/2, 2/3, 3/4] 3 = 3/4
   \<and> shuffleTiles (drawsFrom [0, 1/2, 2/3, 3/4]) (createTiles sampleImage 2)
       = createTiles sampleImage 2
   \<and> boardSolved (shuffleTiles (drawsFrom [0, 1/2, 2/3, 3/4]) (createTiles sampleImage 2))"
proof -
  have fy: "fisherYates (drawsFrom [0, 1/2, 2/3, 3/4]) (createTiles sampleImage 2)
            = createTiles sampleImage 2"
    by (simp add: createTiles_2 fisherYates_4 drawsFrom_def randomIndex_def)
  have "countInversions (createTiles sampleImage 2) = 0"
    by (simp add: createTiles_2 countInversions_4)
  then have "shuffleTiles (drawsFrom [0, 1/2, 2/3, 3/4]) (createTiles sampleImage 2)
             = createTiles sampleImage 2"
    by (simp add: shuffleTiles_def parityFix_def fy)
  then show ?thesis
    by (simp add: createTiles_solved createTiles_length drawsFrom_def)
qed

text \<open>
  Claim C3, amended. From a board in solved order with more than one tile,
  \<open>shuffleTiles\<close> returns the solved board exactly when the Fisher-Yates loop left every
  tile in place or exchanged only the tiles at positions 0 and 1 (one inversion, which the
  parity correction undoes); after any other outcome of the loop the result is not solved.
\<close>

theorem shuffleTiles_solved_iff:
  assumes "\<forall>i. 0 \<le> rnd i \<and> rnd i < 1"
    and "boardSolved board"
    and "1 < length board"
  shows "boardSolved (shuffleTiles rnd board) \<longleftrightarrow>
           fisherYates rnd board = board \<or> fisherYates rnd board = exchange 0 1 board"
proof -
  let ?fy = "fisherYates rnd board"
  have perm: "mset ?fy = mset board"
    by (rule fisherYates_mset [OF assms(1)])
  then have len: "length ?fy = length board"
    by (rule mset_eq_length)
  have pos: "0 < length board" "1 < length board" "0 < length ?fy" "1 < length ?fy"
    using assms(3) len by linarith+
  have fix_odd: "odd (countInversions ?fy) \<Longrightarrow> shuffleTiles rnd board = exchange 0 1 ?fy"
    by (simp add: shuffleTiles_def parityFix_def exchange_def even_iff_mod_2_eq_zero)
  have fix_even: "even (countInversions ?fy) \<Longrightarrow> shuffleTiles rnd board = ?fy"
    by (simp add: shuffleTiles_def parityFix_def even_iff_mod_2_eq_zero)
  show ?thesis
  proof
    assume solved: "boardSolved (shuffleTiles rnd board)"
    show "?fy = board \<or> ?fy = exchange 0 1 board"
    proof (cases "even (countInversions ?fy)")
      case True
      then have "boardSolved ?fy"
        using solved fix_even by simp
      then have "?fy = board"
        using assms(2) perm by (intro boardSolved_unique)
      then show ?thesis ..
    next
      case False
      then have ex: "boardSolved (exchange 0 1 ?fy)"
        using solved fix_odd by simp
      have "mset (exchange 0 1 ?fy) = mset board"
        using exchange_mset [OF pos(3) pos(4)] perm by simp
      then have "exchange 0 1 ?fy = board"
        using assms(2) ex by (intro boardSolved_unique)
      then have "exchange 0 1 (exchange 0 1 ?fy) = exchange 0 1 board"
        by simp
      then have "?fy = exchange 0 1 board"
        using exchange_involution [OF pos(3) pos(4)] by simp
      then show ?thesis ..
    qed
  next
    assume "?fy = board \<or> ?fy = exchange 0 1 board"
    then show "boardSolved (shuffleTiles rnd board)"
    proof
      assume same: "?fy = board"
      then have "countInversions ?fy = 0"
        using assms(2) by (simp add: countInversions_solved)
      then show ?thesis
        using fix_even same assms(2) by simp
    next
      assume swapped: "?fy = exchange 0 1 board"
      then have "countInversions ?fy = 1"
        using countInversions_solved_exchanged [OF assms(2) assms(3)] by simp
      then have "shuffleTiles rnd board = exchange 0 1 ?fy"
        using fix_odd by simp
      also have "\<dots> = board"
        using swapped exchange_involution [OF pos(1) pos(2)] by simp
      finally show ?thesis
        using assms(2) by simp
    qed
  qed
qed

theorem shuffleTiles_solved_iff_witness:
  "(\<forall>i. 0 \<le> drawsFrom [0, 0, 2/3, 3/4] i \<and> drawsFrom [0, 0, 2/3, 3/4] i < 1)
   \<and> boardSolved (createTiles sampleImage 2)
   \<and> 1 < length (createTiles sampleImage 2)
   \<and> fisherYates (drawsFrom [0, 0, 2/3, 3/4]) (createTiles sampleImage 2)
       = exchange 0 1 (createTiles sampleImage 2)
   \<and> boardSolved (shuffleTiles (drawsFrom [0, 0, 2/3, 3/4]) (createTiles sampleImage 2))"
proof -
  have draws: "\<forall>i. 0 \<le> drawsFrom [0, 0, 2/3, 3/4] i \<and> drawsFrom [0, 0, 2/3, 3/4] i < 1"
    by (intro allI drawsFrom_valid) simp
  have solved: "boardSolved (createTiles sampleImage 2)"
    by (rule createTiles_solved)
  have len: "1 < length (createTiles sampleImage 2)"
    by (simp add: createTiles_length)
  have fy: "fisherYates (drawsFrom [0, 0, 2/3, 3/4]) (createTiles sampleImage 2)
            = exchange 0 1 (createTiles sampleImage 2)"
    by (simp add: createTiles_2 fisherYates_4 exchange_def drawsFrom_def randomIndex_def)
  show ?thesis
    using shuffleTiles_solved_iff [OF draws solved len] draws solved len fy by blast
qed

text \<open>
  Claim C4. After the Fisher-Yates loop \<open>shuffleTiles\<close> exchanges positions 0 and 1 if and
  only if the inversion count of the shuffled board is odd, so the board it returns from
  tiles with distinct ordinals has an even inversion count. On the 2 by 2 board, the draws
  that shuffle to \<open>[1,0,3,2]\<close> (2 inversions) leave it as it is, and the draws that shuffle
  to \<open>[3,1,2,0]\<close> (5 inversions) end in \<open>[1,3,2,0]\<close>.
\<close>

theorem shuffleTiles_parity_fix:
  "shuffleTiles rnd board =
     (if odd (countInversions (fisherYates rnd board))
      then exchange 0 1 (fisherYates rnd board) else fisherYates rnd board)
   \<and> ((\<forall>i. 0 \<le> rnd i \<and> rnd i < 1) \<and> distinct (map originalIndex board)
        \<longrightarrow> even (countInversions (shuffleTiles rnd board)))
   \<and> fisherYates (drawsFrom [0, 0, 2/3, 1/2]) (createTiles img 2)
        = arranged (createTiles img 2) [1, 0, 3, 2]
   \<and> countInversions (arranged (createTiles img 2) [1, 0, 3, 2]) = 2
   \<and> shuffleTiles (drawsFrom [0, 0, 2/3, 1/2]) (createTiles img 2)
        = arranged (createTiles img 2) [1, 0, 3, 2]
   \<and> fisherYates (drawsFrom [0, 1/2, 2/3, 0]) (createTiles img 2)
        = arranged (createTiles img 2) [3, 1, 2, 0]
   \<and> countInversions (arranged (createTiles img 2) [3, 1, 2, 0]) = 5
   \<and> shuffleTiles (drawsFrom [0, 1/2, 2/3, 0]) (createTiles img 2)
        = arranged (createTiles img 2) [1, 3, 2, 0]"
proof (intro conjI)
  show "shuffleTiles rnd board =
     (if odd (countInversions (fisherYates rnd board))
      then exchange 0 1 (fisherYates rnd board) else fisherYates rnd board)"
    by (simp add: shuffleTiles_def parityFix_def Let_def exchange_def even_iff_mod_2_eq_zero)
  show "(\<forall>i. 0 \<le> rnd i \<and> rnd i < 1) \<and> distinct (map originalIndex board)
        \<longrightarrow> even (countInversions (shuffleTiles rnd board))"
    unfolding shuffleTiles_def
    by (intro impI parityFix_even fisherYates_distinct) simp_all
  show "fisherYates (drawsFrom [0, 0, 2/3, 1/2]) (createTiles img 2)
        = arranged (createTiles img 2) [1, 0, 3, 2]"
    by (simp add: createTiles_2 fisherYates_4 arranged_def drawsFrom_def randomIndex_def)
  show "countInversions (arranged (createTiles img 2) [1, 0, 3, 2]) = 2"
    by (simp add: createTiles_2 countInversions_4 arranged_def)
  show "shuffleTiles (drawsFrom [0, 0, 2/3, 1/2]) (createTiles img 2)
        = arranged (createTiles img 2) [1, 0, 3, 2]"
    by (simp add: shuffleTiles_def parityFix_def createTiles_2 fisherYates_4 countInversions_4
        arranged_def drawsFrom_def randomIndex_def)
  show "fisherYates (drawsFrom [0, 1/2, 2/3, 0]) (createTiles img 2)
        = arranged (createTiles img 2) [3, 1, 2, 0]"
    by (simp add: createTiles_2 fisherYates_4 arranged_def drawsFrom_def randomIndex_def)
  show "countInversions (arranged (createTiles img 2) [3, 1, 2, 0]) = 5"
    by (simp add: createTiles_2 countInversions_4 arranged_def)
  show "shuffleTiles (drawsFrom [0, 1/2, 2/3, 0]) (createTiles img 2)
        = arranged (createTiles img 2) [1, 3, 2, 0]"
    by (simp add: shuffleTiles_def parityFix_def createTiles_2 fisherYates_4 countInversions_4
        arranged_def drawsFrom_def randomIndex_def)
qed

theorem shuffleTiles_parity_fix_witness:
  "(\<forall>i. 0 \<le> drawsFrom [0, 1/2, 2/3, 0] i \<and> drawsFrom [0, 1/2, 2/3, 0] i < 1)
   \<and> distinct (map originalIndex (createTiles sampleImage 2))
   \<and> odd (countInversions (fisherYates (drawsFrom [0, 1/2, 2/3, 0]) (createTiles sampleImage 2)))
   \<and> even (countInversions (shuffleTiles (drawsFrom [0, 1/2, 2/3, 0]) (createTiles sampleImage 2)))"
proof -
  have draws: "\<forall>i. 0 \<le> drawsFrom [0, 1/2, 2/3, 0] i \<and> drawsFrom [0, 1/2, 2/3, 0] i < 1"
    by (intro allI drawsFrom_valid) simp
  have dist: "distinct (map originalIndex (createTiles sampleImage 2))"
    by (simp only: createTiles_originalIndex distinct_upt)
  have "countInversions (fisherYates (drawsFrom [0, 1/2, 2/3, 0]) (createTiles sampleImage 2)) = 5"
    by (simp add: createTiles_2 fisherYates_4 countInversions_4 drawsFrom_def randomIndex_def)
  then have odd5: "odd (countInversions
      (fisherYates (drawsFrom [0, 1/2, 2/3, 0]) (createTiles sampleImage 2)))"
    by simp
  show ?thesis
    using shuffleTiles_parity_fix [of "drawsFrom [0, 1/2, 2/3, 0]" "createTiles sampleImage 2"]
      draws dist odd5 by blast
qed

section \<open>Lemmas about the session\<close>

lemma handleTileClick_solved: "isSolved s \<Longrightarrow> handleTileClick index s = Inr s"
  by (simp add: handleTileClick_def)

lemma handleTileClick_cases:
  assumes "handleTileClick index s = Inr s'"
  shows "s' = s
         \<or> s' = s\<lparr>selectedTile := Some index\<rparr> \<and> \<not> isSolved s \<and> index < length (tiles s)
         \<or> s' = s\<lparr>selectedTile := None\<rparr> \<and> \<not> isSolved s
         \<or> (\<exists>selected. \<not> isSolved s \<and> selectedTile s = Some selected
               \<and> selected < length (tiles s) \<and> index < length (tiles s)
               \<and> \<not> boardSolved (exchange selected index (tiles s))
               \<and> s' = s\<lparr>tiles := exchange selected index (tiles s), selectedTile := None\<rparr>)
         \<or> (\<exists>selected. \<not> isSolved s \<and> selectedTile s = Some selected
               \<and> selected < length (tiles s) \<and> index < length (tiles s)
               \<and> boardSolved (exchange selected index (tiles s))
               \<and> s' = s\<lparr>tiles := exchange selected index (tiles s), selectedTile := None,
                         isSolved := True, completionTimers := Suc (completionTimers s)\<rparr>)"
  using assms
  by (auto simp: handleTileClick_def swapTiles_def checkSolved_def handlePuzzleSolved_def Let_def
      split: if_splits option.splits)

lemma separatedD:
  assumes "separated placed"
  shows "placed PuzzleContainer \<noteq> LoadingScreen"
    and "placed RetryBtn \<noteq> LoadingScreen" and "placed RetryBtn \<noteq> placed PuzzleContainer"
    and "placed StartBtn \<noteq> LoadingScreen" and "placed StartBtn \<noteq> placed PuzzleContainer"
    and "placed NextBtn \<noteq> LoadingScreen" and "placed NextBtn \<noteq> placed PuzzleContainer"
    and "placed RestartBtn \<noteq> LoadingScreen" and "placed RestartBtn \<noteq> placed PuzzleContainer"
  using assms by (simp_all add: separated_def)

lemma separated_byName: "separated byName"
  by (simp add: separated_def)

lemma consistent_pageLoaded: "consistent placed pageLoaded"
  by (simp add: consistent_def pageLoaded_def init_begin_def initialState_def showScreen_def)

text \<open>A button on neither the loading screen nor the puzzle's screen is visible only when nothing is pending.\<close>

lemma idle_when_button_shown:
  assumes "consistent placed s" "shown s \<noteq> LoadingScreen" "shown s \<noteq> placed PuzzleContainer"
  shows "suspended s = []" and "completionTimers s = 0"
  using assms by (auto simp: consistent_def split: if_splits)

lemma consistent_start_task:
  assumes "consistent placed s" "suspended s = []" "completionTimers s = 0" "t \<noteq> LoadAwaitsImage"
  shows "consistent placed (s\<lparr>shown := LoadingScreen, suspended := [t]\<rparr>)"
  using assms by (auto simp: consistent_def split: if_splits)

lemma consistent_currentLevelIndex:
  "consistent placed (s\<lparr>currentLevelIndex := k\<rparr>) = consistent placed s"
  by (simp add: consistent_def)

lemma consistent_retry:
  assumes "separated placed" "consistent placed s" "shown s = placed RetryBtn"
  shows "consistent placed (init_begin s)"
proof -
  have idle: "suspended s = []" "completionTimers s = 0"
    using idle_when_button_shown [OF assms(2)] separatedD(2,3) [OF assms(1)] assms(3) by simp_all
  then show ?thesis
    using consistent_start_task [OF assms(2) idle, of InitAwaitsLevels]
    by (simp add: init_begin_def showScreen_def)
qed

lemma consistent_loadLevel_begin:
  assumes "consistent placed s" "shown s \<noteq> LoadingScreen" "shown s \<noteq> placed PuzzleContainer"
  shows "consistent placed (loadLevel_begin k s)"
proof -
  have idle: "suspended s = []" "completionTimers s = 0"
    using idle_when_button_shown [OF assms] by simp_all
  then show ?thesis
    using consistent_start_task [OF assms(1) idle, of "LoadAwaitsLevelData k"]
    by (simp add: loadLevel_begin_def showScreen_def)
qed

lemma consistent_next:
  assumes "separated placed" "consistent placed s" "shown s = placed NextBtn"
  shows "consistent placed (nextLevel s)"
proof (cases "int (currentLevelIndex s) \<ge> int (length (levels s)) - 1")
  case True
  have idle: "suspended s = []" "completionTimers s = 0"
    using idle_when_button_shown [OF assms(2)] separatedD(6,7) [OF assms(1)] assms(3) by simp_all
  have "consistent placed (s\<lparr>shown := FinalScreen\<rparr>)"
    using assms(2) idle by (auto simp: consistent_def split: if_splits)
  then show ?thesis
    using True by (simp add: nextLevel_def showScreen_def)
next
  case False
  then show ?thesis
    using consistent_loadLevel_begin [OF assms(2)] separatedD(6,7) [OF assms(1)] assms(3)
    by (simp add: nextLevel_def)
qed

lemma consistent_restart:
  assumes "separated placed" "consistent placed s" "shown s = placed RestartBtn"
  shows "consistent placed (restart s)"
proof -
  have "consistent placed (s\<lparr>currentLevelIndex := 0\<rparr>)"
    using assms(2) by (simp only: consistent_currentLevelIndex)
  then show ?thesis
    using consistent_loadLevel_begin [of placed "s\<lparr>currentLevelIndex := 0\<rparr>" 0]
      separatedD(8,9) [OF assms(1)] assms(3)
    by (simp add: restart_def)
qed

lemma consistent_click:
  assumes "separated placed" "consistent placed s" "shown s = placed PuzzleContainer"
    and "handleTileClick index s = Inr s'"
  shows "consistent placed s'"
proof -
  have nl: "shown s \<noteq> LoadingScreen"
    using separatedD(1) [OF assms(1)] assms(3) by simp
  then have idle: "suspended s = []"
    using assms(2) by (auto simp: consistent_def split: if_splits)
  have len: "\<And>a b. length (exchange a b (tiles s)) = length (tiles s)"
    "\<And>a b. exchange a b (tiles s) = [] \<longleftrightarrow> tiles s = []"
    by (simp_all add: exchange_def)
  from handleTileClick_cases [OF assms(4)] show ?thesis
  proof (elim disjE exE conjE)
    assume "s' = s"
    then show ?thesis using assms(2) by simp
  next
    assume "s' = s\<lparr>selectedTile := Some index\<rparr>" "index < length (tiles s)"
    then show ?thesis using assms(2) by (auto simp: consistent_def split: if_splits)
  next
    assume "s' = s\<lparr>selectedTile := None\<rparr>"
    then show ?thesis using assms(2) by (auto simp: consistent_def split: if_splits)
  next
    fix selected
    assume "s' = s\<lparr>tiles := exchange selected index (tiles s), selectedTile := None\<rparr>"
      "\<not> isSolved s"
    then show ?thesis using assms(2) by (auto simp: consistent_def len split: if_splits)
  next
    fix selected
    assume "s' = s\<lparr>tiles := exchange selected index (tiles s), selectedTile := None,
                         isSolved := True, completionTimers := Suc (completionTimers s)\<rparr>"
      "\<not> isSolved s" "index < length (tiles s)"
    then show ?thesis using assms(2,3) idle by (auto simp: consistent_def len split: if_splits)
  qed
qed

lemma consistent_finish_task:
  assumes "consistent placed s" "t \<in> set (suspended s)"
  shows "suspended (resumed t s) = []" and "completionTimers s = 0"
    and "audioElement s = None \<or> isSolved s"
proof -
  have one: "length (suspended s) = 1"
    using assms by (auto simp: consistent_def split: if_splits)
  then obtain u where u: "suspended s = [u]"
    by (cases "suspended s") auto
  with assms(2) show "suspended (resumed t s) = []"
    by (simp add: resumed_def)
  show "completionTimers s = 0"
    using assms(1) u by (auto simp: consistent_def split: if_splits)
  show "audioElement s = None \<or> isSolved s"
    using assms(1) by (auto simp: consistent_def split: if_splits)
qed

lemma consistent_leave_loading:
  assumes "consistent placed s" "t \<in> set (suspended s)"
  shows "consistent placed (showError msg (resumed t s))"
    and "consistent placed (init_levels ls (resumed t s))"
proof -
  note fin = consistent_finish_task [OF assms]
  have rest: "isSolved (resumed t s) = isSolved s" "audioElement (resumed t s) = audioElement s"
    "completionTimers (resumed t s) = completionTimers s" "tiles (resumed t s) = tiles s"
    "originalImage (resumed t s) = originalImage s" "currentLevel (resumed t s) = currentLevel s"
    "selectedTile (resumed t s) = selectedTile s"
    by (simp_all add: resumed_def)
  show "consistent placed (showError msg (resumed t s))"
    using assms(1) fin
    by (auto simp: consistent_def showError_def showScreen_def rest split: if_splits)
  show "consistent placed (init_levels ls (resumed t s))"
    using assms(1) fin
    by (auto simp: consistent_def init_levels_def showScreen_def rest split: if_splits)
qed

lemma consistent_levelData:
  assumes "consistent placed s" "LoadAwaitsLevelData k \<in> set (suspended s)"
  shows "consistent placed
     ((loadLevel_levelData k levelData (resumed (LoadAwaitsLevelData k) s))
        \<lparr>suspended := suspended (loadLevel_levelData k levelData
                        (resumed (LoadAwaitsLevelData k) s)) @ [LoadAwaitsImage]\<rparr>)"
proof -
  note fin = consistent_finish_task [OF assms]
  have loading: "shown s = LoadingScreen"
    using assms by (auto simp: consistent_def split: if_splits)
  show ?thesis
    using assms(1) fin loading
    by (auto simp: consistent_def loadLevel_levelData_def resumed_def split: if_splits)
qed

lemma loadLevel_image_fields:
  "isSolved (loadLevel_image img rnd s) = False"
  "audioElement (loadLevel_image img rnd s) = None"
  "selectedTile (loadLevel_image img rnd s) = None"
  "shown (loadLevel_image img rnd s) = GameScreen"
  "originalImage (loadLevel_image img rnd s) = Some img"
  "tiles (loadLevel_image img rnd s) = shuffleTiles rnd (createTiles img (gridSize s))"
  "suspended (loadLevel_image img rnd s) = suspended s"
  "completionTimers (loadLevel_image img rnd s) = completionTimers s"
  "currentLevel (loadLevel_image img rnd s) = currentLevel s"
  "currentLevelIndex (loadLevel_image img rnd s) = currentLevelIndex s"
  "gridSize (loadLevel_image img rnd s) = gridSize s"
  "levels (loadLevel_image img rnd s) = levels s"
  "errorMessage (loadLevel_image img rnd s) = errorMessage s"
  by (simp_all add: loadLevel_image_def showScreen_def Let_def)

lemma consistent_image:
  assumes "consistent placed s" "LoadAwaitsImage \<in> set (suspended s)"
  shows "consistent placed (loadLevel_image img rnd (resumed LoadAwaitsImage s))"
proof -
  note fin = consistent_finish_task [OF assms]
  have level: "currentLevel s \<noteq> None"
    using assms by (auto simp: consistent_def split: if_splits)
  have rest: "completionTimers (resumed LoadAwaitsImage s) = completionTimers s"
    "currentLevel (resumed LoadAwaitsImage s) = currentLevel s"
    by (simp_all add: resumed_def)
  show ?thesis
    using fin(1,2) level by (simp add: consistent_def loadLevel_image_fields rest)
qed

lemma showCompletionScreen_fields:
  assumes "showCompletionScreen s = Inr s'"
  shows "audioElement s' \<noteq> None" and "shown s' = CompletionScreen"
    and "isSolved s' = isSolved s" and "completionTimers s' = completionTimers s"
    and "suspended s' = suspended s" and "tiles s' = tiles s"
    and "originalImage s' = originalImage s" and "currentLevel s' = currentLevel s"
    and "selectedTile s' = selectedTile s"
  using assms
  by (auto simp: showCompletionScreen_def createAndPlayAudio_def showScreen_def Let_def
      split: option.splits if_splits)

lemma timer_pending:
  assumes "consistent placed s" "completionTimers s > 0"
  shows "isSolved s" and "completionTimers s = 1" and "audioElement s = None"
    and "shown s = placed PuzzleContainer" and "suspended s = []"
    and "originalImage s \<noteq> None" and "currentLevel s \<noteq> None" and "tiles s \<noteq> []"
  using assms by (auto simp: consistent_def split: if_splits)

lemma consistent_timeout:
  assumes "consistent placed s" "completionTimers s > 0"
    and "showCompletionScreen (s\<lparr>completionTimers := completionTimers s - 1\<rparr>) = Inr s'"
  shows "consistent placed s'"
proof -
  note pend = timer_pending [OF assms(1,2)]
  note after = showCompletionScreen_fields [OF assms(3)]
  have sel: "selectedTile s = None \<or> the (selectedTile s) < length (tiles s)"
    using assms(1) by (auto simp: consistent_def split: if_splits)
  show ?thesis
    using pend sel after(1) by (auto simp: consistent_def after(2-))
qed

lemma timeout_succeeds:
  assumes "consistent placed s" "completionTimers s > 0"
  shows "\<exists>s'. fire placed CompletionTimeout s = Some s'"
proof -
  note pend = timer_pending [OF assms]
  then obtain img levelData where "originalImage s = Some img" "currentLevel s = Some levelData"
    by auto
  then show ?thesis
    using assms(2)
    by (simp add: completed_def showCompletionScreen_def createAndPlayAudio_def showScreen_def)
qed

lemma consistent_fire:
  assumes "separated placed" "consistent placed s" "fire placed e s = Some s'"
  shows "consistent placed s'"
proof (cases e)
  case ClickRetry
  then show ?thesis
    using assms consistent_retry [OF assms(1,2)] by (simp split: if_splits)
next
  case ClickStart
  then show ?thesis
    using assms consistent_loadLevel_begin [OF assms(2), of 0] separatedD(4,5) [OF assms(1)]
    by (simp split: if_splits)
next
  case (ClickTile index)
  then have "shown s = placed PuzzleContainer" "handleTileClick index s = Inr s'"
    using assms(3) by (auto simp: completed_def split: if_splits sum.splits)
  then show ?thesis
    by (rule consistent_click [OF assms(1,2)])
next
  case ClickReplay
  then show ?thesis
    using assms by (auto simp: replayAudio_def split: if_splits option.splits)
next
  case ClickNext
  then show ?thesis
    using assms consistent_next [OF assms(1,2)] by (simp split: if_splits)
next
  case ClickRestart
  then show ?thesis
    using assms consistent_restart [OF assms(1,2)] by (simp split: if_splits)
next
  case (LevelsAnswer answer)
  then have t: "InitAwaitsLevels \<in> set (suspended s)"
    using assms(3) by (simp split: if_splits)
  show ?thesis
  proof (cases answer)
    case (Inl message)
    then show ?thesis
      using assms(3) LevelsAnswer t consistent_leave_loading(1) [OF assms(2) t]
      by (auto simp: init_catch_def)
  next
    case (Inr fetched)
    then show ?thesis
      using assms(3) LevelsAnswer t consistent_leave_loading(2) [OF assms(2) t]
      by auto
  qed
next
  case (LevelDataAnswer k answer)
  then have t: "LoadAwaitsLevelData k \<in> set (suspended s)"
    using assms(3) by (simp split: if_splits)
  show ?thesis
  proof (cases answer)
    case (Inl message)
    then show ?thesis
      using assms(3) LevelDataAnswer t consistent_leave_loading(1) [OF assms(2) t]
      by (auto simp: loadLevel_catch_def)
  next
    case (Inr levelData)
    then show ?thesis
      using assms(3) LevelDataAnswer t consistent_levelData [OF assms(2) t, of levelData]
      by (auto simp: Let_def)
  qed
next
  case (ImageAnswer answer rnd)
  then have t: "LoadAwaitsImage \<in> set (suspended s)"
    using assms(3) by (simp split: if_splits)
  show ?thesis
  proof (cases answer)
    case (Inl message)
    then show ?thesis
      using assms(3) ImageAnswer t consistent_leave_loading(1) [OF assms(2) t]
      by (auto simp: loadLevel_catch_def)
  next
    case (Inr img)
    then show ?thesis
      using assms(3) ImageAnswer t consistent_image [OF assms(2) t, of img rnd]
      by auto
  qed
next
  case CompletionTimeout
  then have "completionTimers s > 0"
    "showCompletionScreen (s\<lparr>completionTimers := completionTimers s - 1\<rparr>) = Inr s'"
    using assms(3) by (auto simp: completed_def split: if_splits sum.splits)
  then show ?thesis
    by (rule consistent_timeout [OF assms(2)])
qed

lemma consistent_run:
  assumes "separated placed"
  shows "consistent placed s \<Longrightarrow> run placed es s = Some s' \<Longrightarrow> consistent placed s'"
proof (induction es arbitrary: s)
  case Nil
  then show ?case by simp
next
  case (Cons e es)
  then obtain mid where mid: "fire placed e s = Some mid" "run placed es mid = Some s'"
    by (auto split: option.splits)
  have "consistent placed mid"
    using assms Cons.prems(1) mid(1) by (rule consistent_fire)
  then show ?case
    using mid(2) by (rule Cons.IH)
qed

lemma handleTileClick_audio:
  "handleTileClick index s = Inr s' \<Longrightarrow> audioElement s' = audioElement s"
  using handleTileClick_cases [of index s s'] by auto

lemma fire_keeps_audio:
  assumes "fire placed e s = Some s'" "e \<noteq> CompletionTimeout"
  shows "audioElement s' = audioElement s \<or> audioElement s' = None"
proof (cases e)
  case (ClickTile index)
  then have "handleTileClick index s = Inr s'"
    using assms(1) by (auto simp: completed_def split: if_splits sum.splits)
  then show ?thesis
    by (simp add: handleTileClick_audio)
next
  case (LevelsAnswer answer)
  then show ?thesis
    using assms(1)
    by (auto simp: init_catch_def init_levels_def showError_def showScreen_def resumed_def
        split: if_splits sum.splits)
next
  case (LevelDataAnswer k answer)
  then show ?thesis
    using assms(1)
    by (auto simp: loadLevel_catch_def loadLevel_levelData_def showError_def showScreen_def
        resumed_def Let_def split: if_splits sum.splits)
next
  case (ImageAnswer answer rnd)
  then show ?thesis
    using assms(1)
    by (auto simp: loadLevel_catch_def loadLevel_image_fields showError_def showScreen_def
        resumed_def split: if_splits sum.splits)
next
  case CompletionTimeout
  then show ?thesis using assms(2) by simp
qed (use assms(1) in \<open>auto simp: init_begin_def loadLevel_begin_def nextLevel_def restart_def
      replayAudio_def showScreen_def split: if_splits option.splits\<close>)

lemma fire_timeout_audio:
  assumes "consistent placed s" "fire placed CompletionTimeout s = Some s'"
  shows "isSolved s" and "audioElement s = None" and "isSolved s'" and "audioElement s' \<noteq> None"
proof -
  have pos: "completionTimers s > 0"
    and run: "showCompletionScreen (s\<lparr>completionTimers := completionTimers s - 1\<rparr>) = Inr s'"
    using assms(2) by (auto simp: completed_def split: if_splits sum.splits)
  note pend = timer_pending [OF assms(1) pos]
  note after = showCompletionScreen_fields [OF run]
  show "isSolved s" by (rule pend(1))
  show "audioElement s = None" by (rule pend(3))
  show "isSolved s'" using after(3) pend(1) by simp
  show "audioElement s' \<noteq> None" by (rule after(1))
qed

lemma fire_solved:
  assumes "isSolved s" "fire placed e s = Some s'" "\<not> loadCompletes e"
  shows "isSolved s' \<and> tiles s' = tiles s \<and> selectedTile s' = selectedTile s"
proof (cases e)
  case (ClickTile index)
  then have "handleTileClick index s = Inr s'"
    using assms(2) by (auto simp: completed_def split: if_splits sum.splits)
  then have "s' = s"
    using assms(1) by (simp add: handleTileClick_solved)
  then show ?thesis using assms(1) by simp
next
  case (LevelsAnswer answer)
  then show ?thesis
    using assms(1,2)
    by (auto simp: init_catch_def init_levels_def showError_def showScreen_def resumed_def
        split: if_splits sum.splits)
next
  case (LevelDataAnswer k answer)
  then show ?thesis
    using assms(1,2)
    by (auto simp: loadLevel_catch_def loadLevel_levelData_def showError_def showScreen_def
        resumed_def Let_def split: if_splits sum.splits)
next
  case (ImageAnswer answer rnd)
  then obtain message where "answer = Inl message"
    using assms(3) by (cases answer) auto
  then show ?thesis
    using assms(1,2) ImageAnswer
    by (auto simp: loadLevel_catch_def showError_def showScreen_def resumed_def
        split: if_splits)
next
  case CompletionTimeout
  then have "showCompletionScreen (s\<lparr>completionTimers := completionTimers s - 1\<rparr>) = Inr s'"
    using assms(2) by (auto simp: completed_def split: if_splits sum.splits)
  from showCompletionScreen_fields(3,6,9) [OF this] show ?thesis
    using assms(1) by simp
qed (use assms(1,2) in \<open>auto simp: init_begin_def loadLevel_begin_def nextLevel_def restart_def
      replayAudio_def showScreen_def split: if_splits option.splits\<close>)

lemma run_solved:
  "isSolved s \<Longrightarrow> run placed es s = Some s' \<Longrightarrow> list_all (\<lambda>e. \<not> loadCompletes e) es
   \<Longrightarrow> isSolved s' \<and> tiles s' = tiles s \<and> selectedTile s' = selectedTile s"
proof (induction es arbitrary: s)
  case Nil
  then show ?case by simp
next
  case (Cons e es)
  then obtain mid where mid: "fire placed e s = Some mid" "run placed es mid = Some s'"
    by (auto split: option.splits)
  have quiet: "\<not> loadCompletes e" "list_all (\<lambda>e. \<not> loadCompletes e) es"
    using Cons.prems(3) by simp_all
  have step: "isSolved mid \<and> tiles mid = tiles s \<and> selectedTile mid = selectedTile s"
    using Cons.prems(1) mid(1) quiet(1) by (rule fire_solved)
  then have "isSolved mid" by simp
  then have "isSolved s' \<and> tiles s' = tiles mid \<and> selectedTile s' = selectedTile mid"
    using mid(2) quiet(2) by (rule Cons.IH)
  with step show ?case by simp
qed

text \<open>The segments of \<open>loadLevel\<close>, fired one by one with nothing in between, make up \<open>loadLevel\<close>.\<close>

lemma loadLevel_by_events:
  assumes "suspended s = []"
  shows "run placed [LevelDataAnswer k (Inl message)] (loadLevel_begin k s)
           = Some (loadLevel k (Inl message) imageAnswer rnd s)"
    and "run placed [LevelDataAnswer k (Inr levelData), ImageAnswer imageAnswer rnd]
           (loadLevel_begin k s)
           = Some (loadLevel k (Inr levelData) imageAnswer rnd s)"
proof -
  show "run placed [LevelDataAnswer k (Inl message)] (loadLevel_begin k s)
           = Some (loadLevel k (Inl message) imageAnswer rnd s)"
    using assms
    by (simp add: loadLevel_begin_def loadLevel_def loadLevel_catch_def showError_def
        showScreen_def resumed_def)
  show "run placed [LevelDataAnswer k (Inr levelData), ImageAnswer imageAnswer rnd]
           (loadLevel_begin k s)
           = Some (loadLevel k (Inr levelData) imageAnswer rnd s)"
    using assms
    by (cases imageAnswer)
      (simp_all add: loadLevel_begin_def loadLevel_def loadLevel_catch_def loadLevel_levelData_def
        loadLevel_image_def showError_def showScreen_def resumed_def Let_def)
qed

text \<open>The sample states are states of the sample session.\<close>

lemma sampleSession_freshPuzzle: "run byName (take 4 sampleSession) pageLoaded = Some freshPuzzle"
  by code_simp

lemma sampleSession_justSolved: "run byName (butlast sampleSession) pageLoaded = Some justSolved"
  by code_simp

lemma sampleSession_solvedFirstLevel: "run byName sampleSession pageLoaded = Some solvedFirstLevel"
  by code_simp


section \<open>Properties of the session\<close>

text \<open>
  Claim C9. In an unsolved state, a click on the tile that is already selected clears the
  selection and changes nothing else: the board and the solved flag stay as they are.
  Hence selecting a position and selecting it again gives back the state before.
\<close>

theorem same_tile_deselects:
  "(\<not> isSolved s \<and> selectedTile s = Some position \<and> position < length (tiles s)
      \<longrightarrow> handleTileClick position s = Inr (s\<lparr>selectedTile := None\<rparr>)
          \<and> tiles (s\<lparr>selectedTile := None\<rparr>) = tiles s
          \<and> isSolved (s\<lparr>selectedTile := None\<rparr>) = isSolved s)
   \<and> (\<not> isSolved s \<and> selectedTile s = None \<and> position < length (tiles s)
      \<longrightarrow> handleTileClick position s = Inr (s\<lparr>selectedTile := Some position\<rparr>)
          \<and> handleTileClick position (s\<lparr>selectedTile := Some position\<rparr>) = Inr s)"
  by (simp add: handleTileClick_def)

theorem same_tile_deselects_witness:
  "\<not> isSolved freshPuzzle \<and> selectedTile freshPuzzle = None \<and> 2 < length (tiles freshPuzzle)
   \<and> handleTileClick 2 freshPuzzle = Inr (freshPuzzle\<lparr>selectedTile := Some 2\<rparr>)
   \<and> handleTileClick 2 (freshPuzzle\<lparr>selectedTile := Some 2\<rparr>) = Inr freshPuzzle
   \<and> tiles (freshPuzzle\<lparr>selectedTile := Some 2, selectedTile := None\<rparr>) = tiles freshPuzzle"
proof -
  have fresh: "\<not> isSolved freshPuzzle" "selectedTile freshPuzzle = None"
    "2 < length (tiles freshPuzzle)"
    by (simp_all add: freshPuzzle_def solvedFirstLevel_def arranged_def)
  have armed: "\<not> isSolved (freshPuzzle\<lparr>selectedTile := Some 2\<rparr>)"
    "selectedTile (freshPuzzle\<lparr>selectedTile := Some 2\<rparr>) = Some 2"
    "2 < length (tiles (freshPuzzle\<lparr>selectedTile := Some 2\<rparr>))"
    using fresh by simp_all
  show ?thesis
    using same_tile_deselects [of freshPuzzle 2]
      same_tile_deselects [of "freshPuzzle\<lparr>selectedTile := Some 2\<rparr>" 2] fresh armed
    by simp
qed

text \<open>
  Claim C7. A tile click in a solved state returns the state as it is, without an error.
  From a solved state, every run of events in which no level load completes ends in a
  solved state with the same board and the same selection; and an event that takes a
  solved state to an unsolved one is the completion of a level load.
\<close>

theorem solved_until_next_load:
  "(isSolved s \<longrightarrow> handleTileClick index s = Inr s)
   \<and> (isSolved s \<and> run placed es s = Some s' \<and> list_all (\<lambda>e. \<not> loadCompletes e) es
        \<longrightarrow> isSolved s' \<and> tiles s' = tiles s \<and> selectedTile s' = selectedTile s)
   \<and> (isSolved s \<and> fire placed e s = Some s'' \<and> \<not> isSolved s'' \<longrightarrow> loadCompletes e)"
proof (intro conjI impI)
  assume "isSolved s"
  then show "handleTileClick index s = Inr s"
    by (rule handleTileClick_solved)
next
  assume "isSolved s \<and> run placed es s = Some s' \<and> list_all (\<lambda>e. \<not> loadCompletes e) es"
  then show "isSolved s'" "tiles s' = tiles s" "selectedTile s' = selectedTile s"
    using run_solved [of s placed es s'] by simp_all
next
  assume a: "isSolved s \<and> fire placed e s = Some s'' \<and> \<not> isSolved s''"
  show "loadCompletes e"
  proof (rule ccontr)
    assume "\<not> loadCompletes e"
    then have "isSolved s''"
      using a fire_solved [of s placed e s''] by simp
    with a show False by simp
  qed
qed

theorem solved_until_next_load_witness:
  "isSolved justSolved
   \<and> handleTileClick 3 justSolved = Inr justSolved
   \<and> run byName [ClickTile 3, ClickTile 4, CompletionTimeout, ClickReplay, ClickNext,
                  LevelDataAnswer 1 (Inr nextSampleLevel)] justSolved
       = Some (solvedFirstLevel\<lparr>currentLevelIndex := 1, currentLevel := Some nextSampleLevel,
                 gridSize := 4, shown := LoadingScreen, suspended := [LoadAwaitsImage]\<rparr>)
   \<and> tiles solvedFirstLevel = tiles justSolved
   \<and> \<not> isSolved (loadLevel_image sampleImage sampleDraws
          (solvedFirstLevel\<lparr>currentLevelIndex := 1, currentLevel := Some nextSampleLevel,
                 gridSize := 4, shown := LoadingScreen, suspended := []\<rparr>))
   \<and> loadCompletes (ImageAnswer (Inr sampleImage) sampleDraws)"
proof -
  let ?loading = "solvedFirstLevel\<lparr>currentLevelIndex := 1, currentLevel := Some nextSampleLevel,
                 gridSize := 4, shown := LoadingScreen, suspended := [LoadAwaitsImage]\<rparr>"
  let ?quiet = "[ClickTile 3, ClickTile 4, CompletionTimeout, ClickReplay, ClickNext,
                  LevelDataAnswer 1 (Inr nextSampleLevel)]"
  let ?loaded = "loadLevel_image sampleImage sampleDraws
          (solvedFirstLevel\<lparr>currentLevelIndex := 1, currentLevel := Some nextSampleLevel,
                 gridSize := 4, shown := LoadingScreen, suspended := []\<rparr>)"
  have solved: "isSolved justSolved"
    by (simp add: justSolved_def solvedFirstLevel_def)
  have run: "run byName ?quiet justSolved = Some ?loading"
    by code_simp
  have quiet: "list_all (\<lambda>e. \<not> loadCompletes e) ?quiet"
    by simp
  have still: "isSolved ?loading"
    by (simp add: solvedFirstLevel_def)
  have fire: "fire byName (ImageAnswer (Inr sampleImage) sampleDraws) ?loading = Some ?loaded"
    by (simp add: resumed_def solvedFirstLevel_def)
  have unsolved: "\<not> isSolved ?loaded"
    by (simp add: loadLevel_image_fields)
  have same: "tiles solvedFirstLevel = tiles justSolved"
    by (simp add: justSolved_def)
  show ?thesis
    using solved_until_next_load [of justSolved 3 byName ?quiet ?loading]
      solved_until_next_load [of ?loading 0 byName "[]" ?loading
        "ImageAnswer (Inr sampleImage) sampleDraws" ?loaded]
      solved run quiet still fire unsolved same
    by simp
qed

text \<open>
  Claim C6, as the code has it. A failed load shows the error screen with a message, but
  \<open>loadLevel\<close> assigns \<open>currentLevel\<close>, \<open>currentLevelIndex\<close> and \<open>gridSize\<close> before it
  awaits the image. When the image of the second level fails to load after the first
  level was solved, the session is left with the second level's index, data and grid size
  4 next to the nine tiles of the first level.
\<close>

theorem failed_image_load_is_partial:
  "run byName [ClickNext, LevelDataAnswer 1 (Inr nextSampleLevel),
               ImageAnswer (Inl ''Failed to load image'') sampleDraws] solvedFirstLevel
     = Some (loadLevel 1 (Inr nextSampleLevel) (Inl ''Failed to load image'') sampleDraws
               solvedFirstLevel)
   \<and> shown (loadLevel 1 (Inr nextSampleLevel) (Inl ''Failed to load image'') sampleDraws
        solvedFirstLevel) = ErrorScreen
   \<and> currentLevelIndex solvedFirstLevel = 0
   \<and> currentLevelIndex (loadLevel 1 (Inr nextSampleLevel) (Inl ''Failed to load image'')
        sampleDraws solvedFirstLevel) = 1
   \<and> gridSize solvedFirstLevel = 3
   \<and> gridSize (loadLevel 1 (Inr nextSampleLevel) (Inl ''Failed to load image'')
        sampleDraws solvedFirstLevel) = 4
   \<and> currentLevel solvedFirstLevel = Some sampleLevel
   \<and> currentLevel (loadLevel 1 (Inr nextSampleLevel) (Inl ''Failed to load image'')
        sampleDraws solvedFirstLevel) = Some nextSampleLevel
   \<and> length (tiles (loadLevel 1 (Inr nextSampleLevel) (Inl ''Failed to load image'')
        sampleDraws solvedFirstLevel)) = 9"
proof -
  have idle: "suspended solvedFirstLevel = []"
    by (simp add: solvedFirstLevel_def)
  have "fire byName ClickNext solvedFirstLevel = Some (loadLevel_begin 1 solvedFirstLevel)"
    by (simp add: nextLevel_def solvedFirstLevel_def)
  then have "run byName [ClickNext, LevelDataAnswer 1 (Inr nextSampleLevel),
               ImageAnswer (Inl ''Failed to load image'') sampleDraws] solvedFirstLevel
     = run byName [LevelDataAnswer 1 (Inr nextSampleLevel),
               ImageAnswer (Inl ''Failed to load image'') sampleDraws]
         (loadLevel_begin 1 solvedFirstLevel)"
    by simp
  then have "run byName [ClickNext, LevelDataAnswer 1 (Inr nextSampleLevel),
               ImageAnswer (Inl ''Failed to load image'') sampleDraws] solvedFirstLevel
     = Some (loadLevel 1 (Inr nextSampleLevel) (Inl ''Failed to load image'') sampleDraws
               solvedFirstLevel)"
    by (simp only: loadLevel_by_events(2) [OF idle])
  moreover have "length (createTiles sampleImage 3) = 9"
    by (simp add: createTiles_length)
  ultimately show ?thesis
    by (simp add: loadLevel_def loadLevel_catch_def loadLevel_levelData_def showError_def
        showScreen_def calculateGridSize_def solvedFirstLevel_def)
qed

text \<open>
  Claim C6, amended. If \<open>fetchLevelData\<close> fails, the error screen is shown with the
  message and no field of the session changes. If the image fails to load, the error
  screen is shown with the message; the board, the selection, the solved flag, the
  original image and the audio element are unchanged, and \<open>currentLevel\<close>,
  \<open>currentLevelIndex\<close> and \<open>gridSize\<close> hold the values of the level that was being loaded.
\<close>

theorem loadLevel_failure:
  "loadLevel levelIndex (Inl message) imageAnswer rnd s
     = s\<lparr>shown := ErrorScreen, errorMessage := ''Failed to load level: '' @ message\<rparr>
   \<and> loadLevel levelIndex (Inr levelData) (Inl message) rnd s
     = s\<lparr>currentLevelIndex := levelIndex, currentLevel := Some levelData,
         gridSize := calculateGridSize levelIndex,
         shown := ErrorScreen, errorMessage := ''Failed to load level: '' @ message\<rparr>"
  by (simp add: loadLevel_def loadLevel_catch_def loadLevel_levelData_def showError_def
      showScreen_def)

text \<open>
  Claim C1. On a page whose placement of the controls is \<open>separated\<close>, every state the
  event loop reaches from the loaded page satisfies: while \<open>isSolved\<close> is false there is no
  audio element and no completion timer; while it is true, either exactly one completion
  timer is pending and there is no audio element yet, or no timer is pending and the
  element exists. The completion timer is the only event that creates an audio element:
  it fires in a solved state without one, and it does fire (no exception), while every
  other event (start, level load, failed load, retry, replay, next, restart, tile click)
  leaves the element as it is or removes it.
\<close>

theorem audio_only_after_solved:
  assumes "separated placed" and "run placed es pageLoaded = Some s"
  shows "(if isSolved s
          then (completionTimers s = 1 \<and> audioElement s = None)
               \<or> (completionTimers s = 0 \<and> audioElement s \<noteq> None)
          else audioElement s = None \<and> completionTimers s = 0)
         \<and> (\<forall>e s'. fire placed e s = Some s' \<longrightarrow>
               (if e = CompletionTimeout
                then isSolved s \<and> audioElement s = None \<and> isSolved s' \<and> audioElement s' \<noteq> None
                else audioElement s' = audioElement s \<or> audioElement s' = None))
         \<and> (completionTimers s > 0 \<longrightarrow> (\<exists>s'. fire placed CompletionTimeout s = Some s'))"
proof -
  have inv: "consistent placed s"
    using assms(1) consistent_pageLoaded assms(2) by (rule consistent_run)
  have state: "if isSolved s
          then (completionTimers s = 1 \<and> audioElement s = None)
               \<or> (completionTimers s = 0 \<and> audioElement s \<noteq> None)
          else audioElement s = None \<and> completionTimers s = 0"
    using inv by (auto simp: consistent_def split: if_splits)
  have step: "\<forall>e s'. fire placed e s = Some s' \<longrightarrow>
               (if e = CompletionTimeout
                then isSolved s \<and> audioElement s = None \<and> isSolved s' \<and> audioElement s' \<noteq> None
                else audioElement s' = audioElement s \<or> audioElement s' = None)"
  proof (intro allI impI)
    fix e s' assume f: "fire placed e s = Some s'"
    show "if e = CompletionTimeout
          then isSolved s \<and> audioElement s = None \<and> isSolved s' \<and> audioElement s' \<noteq> None
          else audioElement s' = audioElement s \<or> audioElement s' = None"
    proof (cases "e = CompletionTimeout")
      case True
      then show ?thesis
        using fire_timeout_audio [OF inv, of s'] f by simp
    next
      case False
      then show ?thesis
        using fire_keeps_audio [OF f] by simp
    qed
  qed
  have live: "completionTimers s > 0 \<longrightarrow> (\<exists>s'. fire placed CompletionTimeout s = Some s')"
    using timeout_succeeds [OF inv] by blast
  show ?thesis
    using state step live by blast
qed

theorem audio_only_after_solved_witness:
  "separated byName
   \<and> run byName (take 4 sampleSession) pageLoaded = Some freshPuzzle
   \<and> \<not> isSolved freshPuzzle \<and> audioElement freshPuzzle = None
   \<and> run byName (butlast sampleSession) pageLoaded = Some justSolved
   \<and> isSolved justSolved \<and> audioElement justSolved = None \<and> completionTimers justSolved = 1
   \<and> fire byName CompletionTimeout justSolved = Some solvedFirstLevel
   \<and> audioElement solvedFirstLevel
       = Some \<lparr>au_src = ''/levels/level_1/message.mp3'', au_preload = ''auto''\<rparr>
   \<and> completionTimers solvedFirstLevel = 0"
proof -
  have fired: "fire byName CompletionTimeout justSolved = Some solvedFirstLevel"
    by code_simp
  have fields: "\<not> isSolved freshPuzzle" "isSolved justSolved" "completionTimers justSolved = 1"
    "audioElement solvedFirstLevel
       = Some \<lparr>au_src = ''/levels/level_1/message.mp3'', au_preload = ''auto''\<rparr>"
    by (simp_all add: freshPuzzle_def justSolved_def solvedFirstLevel_def)
  show ?thesis
    using audio_only_after_solved [OF separated_byName sampleSession_freshPuzzle]
      audio_only_after_solved [OF separated_byName sampleSession_justSolved]
      audio_only_after_solved [OF separated_byName sampleSession_solvedFirstLevel]
      separated_byName sampleSession_freshPuzzle sampleSession_justSolved fired fields
    by simp
qed

end
